theory Spec2Isabelle
  imports Main
begin

section \<open>Python strings\<close>

text \<open>
  A Python \<open>str\<close> is a sequence of Unicode code points, and \<open>len\<close> counts code points.
  A code point is a natural number here; \<open>lit\<close> turns an ASCII literal into its code
  points, so that \<open>lit ''unnamed''\<close> is the Python literal \<open>"unnamed"\<close>.
\<close>

type_synonym pystr = "nat list"

definition lit :: "string \<Rightarrow> pystr" where
  "lit s = map of_char s"

text \<open>\<open>s.strip(chars)\<close>: drop every leading and every trailing code point that occurs in
  \<open>chars\<close>.\<close>

definition strip_chars :: "pystr \<Rightarrow> pystr \<Rightarrow> pystr" where
  "strip_chars chars s =
     rev (dropWhile (\<lambda>c. c \<in> set chars) (rev (dropWhile (\<lambda>c. c \<in> set chars) s)))"

subsection \<open>Character classes and case mapping\<close>

text \<open>
  \<open>str.isspace\<close>, \<open>str.isalnum\<close>, \<open>str.lower\<close> and \<open>str.capitalize\<close>, and the classes
  \<^verbatim>\<open>\s\<close> and \<^verbatim>\<open>\w\<close> of \<open>re\<close>, read the Unicode database of the interpreter. Their values
  on ASCII are written out here; for the other code points the tables are a parameter
  \<open>U\<close> of the model, and every property below holds for every such table.
  \<^item> \<open>isspace_tab\<close>: whether a non-ASCII code point is whitespace;
  \<^item> \<open>isalnum_tab\<close>: whether a non-ASCII code point is alphanumeric;
  \<^item> \<open>lower_tab s i\<close>: the lower-case expansion of the non-ASCII code point at index \<open>i\<close>
    of \<open>s\<close> (the context matters for the final sigma);
  \<^item> \<open>title_tab\<close>: the title-case expansion of a non-ASCII code point.
\<close>

record unicode =
  isspace_tab :: "nat \<Rightarrow> bool"
  isalnum_tab :: "nat \<Rightarrow> bool"
  lower_tab :: "pystr \<Rightarrow> nat \<Rightarrow> pystr"
  title_tab :: "nat \<Rightarrow> pystr"

definition ascii_upper :: "nat \<Rightarrow> bool" where
  "ascii_upper c \<longleftrightarrow> 0x41 \<le> c \<and> c \<le> 0x5A"

definition ascii_lower :: "nat \<Rightarrow> bool" where
  "ascii_lower c \<longleftrightarrow> 0x61 \<le> c \<and> c \<le> 0x7A"

definition ascii_letter :: "nat \<Rightarrow> bool" where
  "ascii_letter c \<longleftrightarrow> ascii_upper c \<or> ascii_lower c"

definition ascii_digit :: "nat \<Rightarrow> bool" where
  "ascii_digit c \<longleftrightarrow> 0x30 \<le> c \<and> c \<le> 0x39"

text \<open>Whitespace of ASCII for Python: tab to carriage return, the four separators
  0x1C-0x1F, and the space.\<close>

definition is_space :: "unicode \<Rightarrow> nat \<Rightarrow> bool" where
  "is_space U c \<longleftrightarrow>
     (if c < 0x80 then (0x09 \<le> c \<and> c \<le> 0x0D) \<or> (0x1C \<le> c \<and> c \<le> 0x1F) \<or> c = 0x20
      else isspace_tab U c)"

definition is_alnum :: "unicode \<Rightarrow> nat \<Rightarrow> bool" where
  "is_alnum U c \<longleftrightarrow> (if c < 0x80 then ascii_letter c \<or> ascii_digit c else isalnum_tab U c)"

text \<open>The class \<^verbatim>\<open>\w\<close>: alphanumeric or underscore.\<close>

definition is_word :: "unicode \<Rightarrow> nat \<Rightarrow> bool" where
  "is_word U c \<longleftrightarrow> is_alnum U c \<or> c = 0x5F"

definition lower_at :: "unicode \<Rightarrow> pystr \<Rightarrow> nat \<Rightarrow> pystr" where
  "lower_at U s i =
     (let c = s ! i
      in if c < 0x80 then [if ascii_upper c then c + 0x20 else c] else lower_tab U s i)"

definition py_lower :: "unicode \<Rightarrow> pystr \<Rightarrow> pystr" where
  "py_lower U s = concat (map (lower_at U s) [0..<length s])"

text \<open>\<open>s.capitalize()\<close>: the first code point in title case, the others in lower case.\<close>

definition py_capitalize :: "unicode \<Rightarrow> pystr \<Rightarrow> pystr" where
  "py_capitalize U s =
     (case s of
        [] \<Rightarrow> []
      | c # _ \<Rightarrow>
          (if c < 0x80 then [if ascii_lower c then c - 0x20 else c] else title_tab U c)
            @ concat (map (lower_at U s) [1..<length s]))"

text \<open>\<open>s.strip()\<close> without argument strips whitespace.\<close>

definition strip_ws :: "unicode \<Rightarrow> pystr \<Rightarrow> pystr" where
  "strip_ws U s = rev (dropWhile (is_space U) (rev (dropWhile (is_space U) s)))"

text \<open>\<open>sep.join(parts)\<close>.\<close>

fun py_join :: "pystr \<Rightarrow> pystr list \<Rightarrow> pystr" where
  "py_join sep [] = []"
| "py_join sep [x] = x"
| "py_join sep (x # y # ys) = x @ sep @ py_join sep (y # ys)"

text \<open>\<open>text[:n]\<close> for an integer \<open>n\<close>: a negative \<open>n\<close> counts from the end.\<close>

definition slice_to :: "pystr \<Rightarrow> int \<Rightarrow> pystr" where
  "slice_to text n =
     (if 0 \<le> n then take (nat n) text else take (nat (int (length text) + n)) text)"

text \<open>Tables that give no property to any non-ASCII code point and map it to itself. They
  serve in the closed examples, whose strings are ASCII, so that the tables are not read.\<close>

definition ascii_only :: unicode where
  "ascii_only =
     \<lparr>isspace_tab = (\<lambda>c. False), isalnum_tab = (\<lambda>c. False),
      lower_tab = (\<lambda>s i. [s ! i]), title_tab = (\<lambda>c. [c])\<rparr>"

section \<open>file\_organizer.py\<close>

subsection \<open>\<open>FileOrganizer._sanitize_filename\<close>\<close>

text \<open>
  The character class \<^verbatim>\<open>[/\\:*?"<>|\x00-\x1f\x7f-\x9f]\<close> of the source:
  slash (0x2F), backslash (0x5C), colon (0x3A), star (0x2A), question mark (0x3F), double
  quote (0x22), less-than (0x3C), greater-than (0x3E), bar (0x7C), and the two ranges of
  control characters.
\<close>

definition invalid_chars :: "nat \<Rightarrow> bool" where
  "invalid_chars c \<longleftrightarrow>
     c \<in> {0x2F, 0x5C, 0x3A, 0x2A, 0x3F, 0x22, 0x3C, 0x3E, 0x7C}
     \<or> c \<le> 0x1F \<or> (0x7F \<le> c \<and> c \<le> 0x9F)"

text \<open>\<open>re.sub(invalid_chars, '', filename)\<close> deletes every match of the one-character
  class; \<open>strip('. ')\<close> follows, and the empty result is replaced by \<open>"unnamed"\<close>.\<close>

definition sanitize_filename :: "pystr \<Rightarrow> pystr" where
  "sanitize_filename filename =
     (let sanitized = filter (\<lambda>c. \<not> invalid_chars c) filename;
          sanitized = strip_chars (lit ''. '') sanitized
      in if sanitized = [] then lit ''unnamed'' else sanitized)"

subsection \<open>Paths and the file system\<close>

text \<open>
  A \<open>pathlib.Path\<close> is its parent directory and its final component. \<open>path_suffix\<close> and
  \<open>path_stem\<close> are \<open>PurePath.suffix\<close> and \<open>PurePath.stem\<close> of CPython 3.8 to 3.13: with
  \<open>i = name.rfind('.')\<close>, the suffix is \<open>name[i:]\<close> and the stem \<open>name[:i]\<close> when
  \<open>0 < i < len(name) - 1\<close>; otherwise the suffix is empty and the stem is the name.
  \<open>str.rfind\<close> gives \<open>-1\<close> when the character does not occur.
\<close>

datatype path = Path (parent: pystr) (name: pystr)

definition rfind :: "nat \<Rightarrow> pystr \<Rightarrow> int" where
  "rfind c s =
     (if c \<in> set s
      then int (length s) - 1 - int (length (takeWhile (\<lambda>x. x \<noteq> c) (rev s)))
      else - 1)"

definition path_suffix :: "pystr \<Rightarrow> pystr" where
  "path_suffix nm =
     (let i = rfind 0x2E nm
      in if 0 < i \<and> i < int (length nm) - 1 then drop (nat i) nm else [])"

definition path_stem :: "pystr \<Rightarrow> pystr" where
  "path_stem nm =
     (let i = rfind 0x2E nm
      in if 0 < i \<and> i < int (length nm) - 1 then take (nat i) nm else nm)"

text \<open>\<open>str(counter)\<close> for a non-negative integer: its decimal digits (0x30 is \<open>'0'\<close>).\<close>

fun str_nat :: "nat \<Rightarrow> pystr" where
  "str_nat n = (if n < 10 then [0x30 + n] else str_nat (n div 10) @ [0x30 + n mod 10])"

declare str_nat.simps [simp del]

text \<open>
  \<open>p.exists()\<close> has three outcomes: \<open>True\<close>, \<open>False\<close> (the \<open>stat\<close> call fails with
  \<open>ENOENT\<close>, \<open>ENOTDIR\<close>, \<open>EBADF\<close> or \<open>ELOOP\<close>), or the \<open>OSError\<close> of any other failure
  of \<open>stat\<close>, raised again by \<open>pathlib\<close>: a name that is too long, a directory that may not
  be searched. The state of the file system is the set \<open>fs\<close> of the paths for which
  \<open>exists()\<close> is \<open>True\<close>; the environment of a call says with \<open>exists_raises\<close> for which
  of the other paths it raises. The environment also says whether
  \<open>mkdir(parents=True, exist_ok=True)\<close> succeeds and what each \<open>os.rename\<close> does.
\<close>

type_synonym filesystem = "path set"

datatype rename_outcome = Renamed | PermissionError | OtherOSError

record os_env =
  mkdir_ok :: bool
  os_rename :: "nat \<Rightarrow> rename_outcome"
  exists_raises :: "path \<Rightarrow> bool"

datatype stat_exn = Stat_OSError

definition path_exists :: "os_env \<Rightarrow> filesystem \<Rightarrow> path \<Rightarrow> stat_exn + bool" where
  "path_exists env fs p =
     (if p \<in> fs then Inr True
      else if exists_raises env p then Inl Stat_OSError
      else Inr False)"

subsection \<open>\<open>FileOrganizer._handle_conflict\<close>\<close>

text \<open>The path probed with a given counter: \<^verbatim>\<open>parent / f"{stem}_{counter}{suffix}"\<close>.\<close>

definition suffixed_path :: "path \<Rightarrow> nat \<Rightarrow> path" where
  "suffixed_path target_path counter =
     Path (parent target_path)
       (path_stem (name target_path) @ lit ''_'' @ str_nat counter
          @ path_suffix (name target_path))"

text \<open>The \<open>while True\<close> loop. It has no bound in the source, so it is a partial function:
  \<open>None\<close> stands for a loop that never returns. An \<open>OSError\<close> of \<open>new_path.exists()\<close>
  leaves the loop and the method as an exception (\<open>Inl\<close>).\<close>

partial_function (option) probe ::
  "os_env \<Rightarrow> filesystem \<Rightarrow> path \<Rightarrow> nat \<Rightarrow> (stat_exn + path) option" where
  "probe env fs target_path counter =
     (let new_path = suffixed_path target_path counter;
          found = path_exists env fs new_path
      in if found = Inr False then Some (Inr new_path)
         else if found = Inr True then probe env fs target_path (counter + 1)
         else Some (Inl Stat_OSError))"

definition handle_conflict ::
  "os_env \<Rightarrow> filesystem \<Rightarrow> path \<Rightarrow> (stat_exn + path) option" where
  "handle_conflict env fs target_path =
     (case path_exists env fs target_path of
        Inl e \<Rightarrow> Some (Inl e)
      | Inr False \<Rightarrow> Some (Inr target_path)
      | Inr True \<Rightarrow> probe env fs target_path 1)"

subsection \<open>\<open>FileOrganizer._move_with_retry\<close>\<close>

text \<open>
  What one call of \<open>os.rename\<close> does is decided by the operating system: it succeeds, raises
  \<open>PermissionError\<close>, or raises another \<open>OSError\<close>. The environment gives the outcome of
  each attempt by its number (from 0). The effects of the loop are recorded in a trace:
  the calls of \<open>os.rename\<close> with source and destination, and of \<open>time.sleep\<close> with
  its seconds.
\<close>

datatype effect = Rename path path | Sleep nat

datatype organizer_error =
    File_not_found
  | Permission_error_after int
  | OS_error_during_file_move

text \<open>The body of \<^verbatim>\<open>for attempt in range(retries)\<close>, from \<open>attempt\<close> on; falling out of
  the loop returns \<open>False\<close>.\<close>

function attempts ::
  "(nat \<Rightarrow> rename_outcome) \<Rightarrow> path \<Rightarrow> path \<Rightarrow> int \<Rightarrow> int
     \<Rightarrow> (organizer_error + bool) \<times> effect list"
where
  "attempts outcome source destination retries attempt =
     (if attempt < retries then
        (case outcome (nat attempt) of
           Renamed \<Rightarrow> (Inr True, [Rename source destination])
         | PermissionError \<Rightarrow>
             if attempt < retries - 1 then
               (case attempts outcome source destination retries (attempt + 1) of
                  (r, tr) \<Rightarrow> (r, Rename source destination # Sleep 2 # tr))
             else (Inl (Permission_error_after retries), [Rename source destination])
         | OtherOSError \<Rightarrow> (Inl OS_error_during_file_move, [Rename source destination]))
      else (Inr False, []))"
  by pat_completeness auto
termination
  by (relation "measure (\<lambda>(outcome, source, destination, retries, attempt).
        nat (retries - attempt))") auto

declare attempts.simps [simp del]

definition move_with_retry ::
  "(nat \<Rightarrow> rename_outcome) \<Rightarrow> path \<Rightarrow> path \<Rightarrow> int
     \<Rightarrow> (organizer_error + bool) \<times> effect list" where
  "move_with_retry outcome source destination retries =
     attempts outcome source destination retries 0"

subsection \<open>\<open>FileOrganizer.organize_file\<close>\<close>

text \<open>
  The exceptions that can leave \<open>organize_file\<close>: its own \<open>FileOrganizerError\<close>, and the
  \<open>OSError\<close> of \<open>mkdir\<close> and of \<open>exists()\<close>, which the method does not catch. A
  successful rename removes the source path and makes the destination exist.
  The result is \<open>None\<close> when the conflict loop does not return; otherwise the value
  returned or the exception raised, the new file system and the trace of the move.
\<close>

datatype organize_exn = FileOrganizerError organizer_error | Mkdir_OSError | Exists_OSError

definition organize_file ::
  "os_env \<Rightarrow> filesystem \<Rightarrow> pystr \<Rightarrow> path \<Rightarrow> pystr
     \<Rightarrow> ((organize_exn + bool) \<times> filesystem \<times> effect list) option" where
  "organize_file env fs organized_path source_path new_name =
     (case path_exists env fs source_path of
        Inl e \<Rightarrow> Some (Inl Exists_OSError, fs, [])
      | Inr False \<Rightarrow> Some (Inl (FileOrganizerError File_not_found), fs, [])
      | Inr True \<Rightarrow>
        let original_extension = path_suffix (name source_path);
            sanitized_name = sanitize_filename new_name;
            new_filename = sanitized_name @ original_extension
        in if \<not> mkdir_ok env then Some (Inl Mkdir_OSError, fs, [])
           else
             (case handle_conflict env fs (Path organized_path new_filename) of
                None \<Rightarrow> None
              | Some (Inl e) \<Rightarrow> Some (Inl Exists_OSError, fs, [])
              | Some (Inr target_path) \<Rightarrow>
                  (case move_with_retry (os_rename env) source_path target_path 3 of
                     (Inl e, tr) \<Rightarrow> Some (Inl (FileOrganizerError e), fs, tr)
                   | (Inr success, tr) \<Rightarrow>
                       Some (Inr success,
                             if success then insert target_path (fs - {source_path}) else fs,
                             tr))))"

text \<open>The trace of a move whose first \<open>k\<close> attempts were each followed by the 2-second
  sleep and whose attempt \<open>k + 1\<close> ended the loop.\<close>

definition retry_trace :: "path \<Rightarrow> path \<Rightarrow> nat \<Rightarrow> effect list" where
  "retry_trace src dst k = concat (replicate k [Rename src dst, Sleep 2]) @ [Rename src dst]"

subsection \<open>Organizing files in sequence\<close>




section \<open>text\_extractor.py\<close>

text \<open>
  The document parser and the decoding of a text file are outside the repository. The
  environment gives, for a path, what \<open>PyPDF2\<close> yields (the text of each page as
  \<open>page.extract_text()\<close> returns it, or the exception raised while opening, parsing or
  extracting) and what \<open>open(path, 'r', encoding=e).read()\<close> yields for each encoding.
\<close>

datatype pdf_failure = PdfReadError | PdfOtherException

datatype read_failure = UnicodeDecodeError | ReadOtherException

datatype encoding = UTF8 | Latin1 | CP1252

record reader_env =
  read_pdf :: "path \<Rightarrow> pdf_failure + pystr list"
  read_text :: "path \<Rightarrow> encoding \<Rightarrow> read_failure + pystr"

text \<open>\<open>TextExtractionError\<close> with its messages.\<close>

datatype extraction_error =
    Extraction_file_not_found
  | Unsupported_file_type pystr
  | Corrupted_PDF_file
  | Failed_to_read_PDF
  | Failed_to_read_text_file

definition extract_from_pdf :: "unicode \<Rightarrow> reader_env \<Rightarrow> path \<Rightarrow> extraction_error + pystr" where
  "extract_from_pdf U R file_path =
     (case read_pdf R file_path of
        Inl PdfReadError \<Rightarrow> Inl Corrupted_PDF_file
      | Inl PdfOtherException \<Rightarrow> Inl Failed_to_read_PDF
      | Inr pages \<Rightarrow>
          let text_parts = filter (\<lambda>page_text. page_text \<noteq> []) pages;
              text = py_join (lit '' '') text_parts
          in if strip_ws U text = [] then Inr [] else Inr text)"

text \<open>The loop over the encodings: a failure of any kind goes on to the next one.\<close>

fun try_encodings :: "reader_env \<Rightarrow> path \<Rightarrow> encoding list \<Rightarrow> extraction_error + pystr" where
  "try_encodings R file_path [] = Inl Failed_to_read_text_file"
| "try_encodings R file_path (encoding # encodings) =
     (case read_text R file_path encoding of
        Inr text \<Rightarrow> Inr text
      | Inl _ \<Rightarrow> try_encodings R file_path encodings)"

definition extract_from_text :: "reader_env \<Rightarrow> path \<Rightarrow> extraction_error + pystr" where
  "extract_from_text R file_path = try_encodings R file_path [UTF8, Latin1, CP1252]"

text \<open>The dispatch on the lower-cased extension: the text of the source before it is
  truncated.\<close>

definition source_text :: "unicode \<Rightarrow> reader_env \<Rightarrow> path \<Rightarrow> extraction_error + pystr" where
  "source_text U R file_path =
     (let extension = py_lower U (path_suffix (name file_path))
      in if extension = lit ''.pdf'' then extract_from_pdf U R file_path
         else if extension \<in> set [lit ''.txt'', lit ''.text''] then extract_from_text R file_path
         else Inl (Unsupported_file_type extension))"

text \<open>\<open>TextExtractor.extract_text\<close>. The check \<open>path.exists()\<close> stands before the \<open>try\<close>, so
  its \<open>OSError\<close> leaves the method as it is. The \<open>except Exception\<close> of the \<open>try\<close> wraps
  exceptions that the helpers have not already turned into \<open>TextExtractionError\<close>; the
  model has none.\<close>

datatype extract_exn = TextExtractionError extraction_error | Extraction_OSError

definition extract_text ::
  "unicode \<Rightarrow> reader_env \<Rightarrow> os_env \<Rightarrow> filesystem \<Rightarrow> int \<Rightarrow> path \<Rightarrow> extract_exn + pystr" where
  "extract_text U R env fs max_length file_path =
     (case path_exists env fs file_path of
        Inl e \<Rightarrow> Inl Extraction_OSError
      | Inr False \<Rightarrow> Inl (TextExtractionError Extraction_file_not_found)
      | Inr True \<Rightarrow>
        (case source_text U R file_path of
           Inl e \<Rightarrow> Inl (TextExtractionError e)
         | Inr text \<Rightarrow> Inr (slice_to text max_length)))"

section \<open>llm\_service.py\<close>

subsection \<open>\<open>LLMService._fallback_filename\<close>\<close>

text \<open>
  The local time read by \<open>datetime.now()\<close> is an input of the model. \<open>strftime\<close> with
  \<^verbatim>\<open>%Y%m%d_%H%M%S\<close> writes the year with four digits and the other fields with two digits
  each, zero-padded (a year of less than four digits, which \<open>now()\<close> does not produce, is
  written with leading zeros here).
\<close>

record datetime =
  year :: nat
  month :: nat
  day :: nat
  hour :: nat
  minute :: nat
  second :: nat

definition two_digits :: "nat \<Rightarrow> pystr" where
  "two_digits n = [0x30 + (n div 10) mod 10, 0x30 + n mod 10]"

definition four_digits :: "nat \<Rightarrow> pystr" where
  "four_digits n =
     [0x30 + (n div 1000) mod 10, 0x30 + (n div 100) mod 10,
      0x30 + (n div 10) mod 10, 0x30 + n mod 10]"

definition strftime :: "datetime \<Rightarrow> pystr" where
  "strftime now =
     four_digits (year now) @ two_digits (month now) @ two_digits (day now) @ lit ''_''
       @ two_digits (hour now) @ two_digits (minute now) @ two_digits (second now)"

definition fallback_filename :: "datetime \<Rightarrow> pystr" where
  "fallback_filename now = lit ''document_'' @ strftime now"

subsection \<open>\<open>LLMService._simulate_filename\<close>\<close>

definition common_words :: "pystr list" where
  "common_words = map lit
     [''the'', ''and'', ''for'', ''that'', ''this'', ''with'', ''from'', ''have'',
      ''will'', ''your'', ''are'', ''not'', ''but'', ''can'', ''was'', ''were'',
      ''been'', ''has'', ''had'', ''does'', ''did'', ''would'', ''could'', ''should'',
      ''about'', ''into'', ''through'', ''during'', ''before'', ''after'', ''above'',
      ''below'', ''between'', ''under'', ''again'', ''further'', ''then'', ''once'']"

text \<open>
  \<^verbatim>\<open>re.findall(r'\b[a-zA-Z]{4,}\b', text)\<close>. The scan goes through the text from left to
  right; \<open>pw\<close> says whether the character before the current position is a word character
  (\<open>False\<close> at the start of the text). \<^verbatim>\<open>\b\<close> holds at a position when exactly one of the
  characters before and after it is a word character. At a position where \<^verbatim>\<open>\b\<close> holds,
  \<^verbatim>\<open>[a-zA-Z]{4,}\<close> takes the longest run of ASCII letters and gives letters back one at a
  time, down to four, until \<^verbatim>\<open>\b\<close> holds at the end of the match (\<open>try_end\<close>). A match is
  emitted and the scan goes on behind it; without a match the scan moves one character on.
\<close>

definition boundary_at :: "unicode \<Rightarrow> bool \<Rightarrow> pystr \<Rightarrow> nat \<Rightarrow> bool" where
  "boundary_at U pw s k \<longleftrightarrow>
     (if k = 0 then pw else is_word U (s ! (k - 1))) \<noteq> (k < length s \<and> is_word U (s ! k))"

fun try_end :: "unicode \<Rightarrow> bool \<Rightarrow> pystr \<Rightarrow> nat \<Rightarrow> nat option" where
  "try_end U pw s k =
     (if k < 4 then None
      else if boundary_at U pw s k then Some k
      else try_end U pw s (k - 1))"

declare try_end.simps [simp del]

definition match_here :: "unicode \<Rightarrow> bool \<Rightarrow> pystr \<Rightarrow> nat option" where
  "match_here U pw s =
     (if boundary_at U pw s 0 then try_end U pw s (length (takeWhile ascii_letter s))
      else None)"

lemma try_end_range: "try_end U pw s k = Some j \<Longrightarrow> 4 \<le> j \<and> j \<le> k"
proof (induction U pw s k rule: try_end.induct)
  case (1 U pw s k)
  then show ?case
    by (subst (asm) (2) try_end.simps) (auto split: if_splits)
qed

lemma match_here_range:
  "match_here U pw s = Some j \<Longrightarrow> 4 \<le> j \<and> j \<le> length s"
proof -
  assume "match_here U pw s = Some j"
  then have "try_end U pw s (length (takeWhile ascii_letter s)) = Some j"
    by (simp add: match_here_def split: if_splits)
  from try_end_range [OF this] length_takeWhile_le [of ascii_letter s]
  show ?thesis by simp
qed

function findall_words :: "unicode \<Rightarrow> bool \<Rightarrow> pystr \<Rightarrow> pystr list" where
  "findall_words U pw [] = []"
| "findall_words U pw (c # cs) =
     (case match_here U pw (c # cs) of
        Some k \<Rightarrow> take k (c # cs) # findall_words U True (drop k (c # cs))
      | None \<Rightarrow> findall_words U (is_word U c) cs)"
  by pat_completeness auto
termination
proof (relation "measure (\<lambda>(U, pw, s). length s)")
  show "wf (measure (\<lambda>(U, pw, s). length s))" by simp
next
  fix U pw c cs
  show "((U, is_word U c, cs), (U, pw, c # cs)) \<in> measure (\<lambda>(U, pw, s). length s)" by simp
next
  fix U pw c cs k
  assume "match_here U pw (c # cs) = Some k"
  from match_here_range [OF this]
  show "((U, True, drop k (c # cs)), (U, pw, c # cs)) \<in> measure (\<lambda>(U, pw, s). length s)"
    by simp
qed

declare findall_words.simps [simp del]

text \<open>The loop that collects the unique keywords, with its \<open>break\<close> at five.\<close>

fun unique_loop :: "pystr list \<Rightarrow> pystr list \<Rightarrow> pystr set \<Rightarrow> pystr list" where
  "unique_loop [] unique_keywords seen = unique_keywords"
| "unique_loop (word # keywords) unique_keywords seen =
     (if word \<notin> seen then
        (if 5 \<le> length (unique_keywords @ [word]) then unique_keywords @ [word]
         else unique_loop keywords (unique_keywords @ [word]) (insert word seen))
      else
        (if 5 \<le> length unique_keywords then unique_keywords
         else unique_loop keywords unique_keywords seen))"

text \<open>\<open>s.split()\<close>: the maximal runs of non-whitespace; \<open>cur\<close> is the run being read.\<close>

fun split_ws :: "unicode \<Rightarrow> pystr \<Rightarrow> pystr \<Rightarrow> pystr list" where
  "split_ws U cur [] = (if cur = [] then [] else [cur])"
| "split_ws U cur (c # cs) =
     (if is_space U c then (if cur = [] then split_ws U [] cs else cur # split_ws U [] cs)
      else split_ws U (cur @ [c]) cs)"

definition simulate_filename :: "unicode \<Rightarrow> datetime \<Rightarrow> pystr \<Rightarrow> pystr" where
  "simulate_filename U now content_sample =
     (let content = strip_ws U content_sample;
          words = findall_words U False (py_lower U content);
          keywords = filter (\<lambda>w. w \<notin> set common_words) words;
          unique_keywords = unique_loop keywords [] {}
      in if unique_keywords \<noteq> [] then
           py_join (lit ''_'') (map (py_capitalize U) (take 3 unique_keywords))
         else
           let first_words = take 3 (split_ws U [] content);
               filename = py_join (lit ''_'') (map (py_capitalize U) first_words);
               filename = filter (\<lambda>c. ascii_letter c \<or> ascii_digit c \<or> c = 0x5F) filename
           in if first_words \<noteq> [] \<and> filename \<noteq> [] then filename
              else fallback_filename now)"

subsection \<open>\<open>LLMService._bedrock_filename\<close>\<close>

text \<open>
  The remote service is outside the repository. A client takes the request (model
  identifier and body) and gives the parsed JSON object of the response, or fails: any
  exception of building the body, of the call or of parsing the response. Of a JSON value
  it matters only whether it is a string. The body has one of two shapes; the fixed
  sampling parameters are left out.
\<close>

datatype request_body = Claude_body pystr int | Generic_body pystr int

datatype request = Request pystr request_body

datatype json_value = JString pystr | JOther

type_synonym client = "request \<Rightarrow> unit + (pystr \<Rightarrow> json_value option)"

record llm_service =
  mode :: pystr
  bedrock_model :: "pystr option"
  max_tokens :: int
  bedrock_client :: "client option"

datatype llm_exn = LLMServiceError

definition prompt_for :: "pystr \<Rightarrow> pystr" where
  "prompt_for content_sample =
     lit ''Based on the following text content, generate a short, descriptive filename (3-5 words, no file extension). ''
     @ [0x0A] @ lit ''Use underscores between words. Only respond with the filename, nothing else.''
     @ [0x0A, 0x0A] @ lit ''Content:'' @ [0x0A] @ take 500 content_sample
     @ [0x0A, 0x0A] @ lit ''Filename:''"

text \<open>\<open>sub in s\<close> for strings.\<close>

fun is_substring :: "pystr \<Rightarrow> pystr \<Rightarrow> bool" where
  "is_substring sub [] \<longleftrightarrow> sub = []"
| "is_substring sub (c # cs) \<longleftrightarrow> take (length sub) (c # cs) = sub \<or> is_substring sub cs"

text \<open>\<^verbatim>\<open>re.sub(r'\s+', '_', s)\<close>: every maximal run of whitespace becomes one underscore;
  \<open>in_run\<close> says whether the previous character was whitespace.\<close>

fun sub_ws_runs :: "unicode \<Rightarrow> bool \<Rightarrow> pystr \<Rightarrow> pystr" where
  "sub_ws_runs U in_run [] = []"
| "sub_ws_runs U in_run (c # cs) =
     (if is_space U c then
        (if in_run then sub_ws_runs U True cs else 0x5F # sub_ws_runs U True cs)
      else c # sub_ws_runs U False cs)"

text \<open>The clean-up of the response: first line, then the characters outside
  \<^verbatim>\<open>[a-zA-Z0-9_\s-]\<close> are deleted, then whitespace runs become underscores.\<close>

definition clean_response :: "unicode \<Rightarrow> pystr \<Rightarrow> pystr" where
  "clean_response U filename =
     (let filename = takeWhile (\<lambda>c. c \<noteq> 0x0A) filename;
          filename = filter (\<lambda>c. ascii_letter c \<or> ascii_digit c \<or> c = 0x5F
                                  \<or> is_space U c \<or> c = 0x2D) filename
      in sub_ws_runs U False filename)"

text \<open>An exception inside the \<open>try\<close> (a missing model identifier, a failure of the client,
  a field that is not a string) is raised again as \<open>LLMServiceError\<close>.\<close>

definition bedrock_filename ::
  "unicode \<Rightarrow> datetime \<Rightarrow> llm_service \<Rightarrow> pystr \<Rightarrow> llm_exn + pystr" where
  "bedrock_filename U now svc content_sample =
     (case bedrock_client svc of
        None \<Rightarrow> Inr (simulate_filename U now content_sample)
      | Some invoke_model \<Rightarrow>
          (case bedrock_model svc of
             None \<Rightarrow> Inl LLMServiceError
           | Some model \<Rightarrow>
               let prompt = prompt_for content_sample;
                   claude = is_substring (lit ''claude'') (py_lower U model);
                   body =
                     (if claude then
                        Claude_body ([0x0A, 0x0A] @ lit ''Human: '' @ prompt
                                       @ [0x0A, 0x0A] @ lit ''Assistant:'') (max_tokens svc)
                      else Generic_body prompt (max_tokens svc))
               in (case invoke_model (Request model body) of
                     Inl _ \<Rightarrow> Inl LLMServiceError
                   | Inr response_body \<Rightarrow>
                       (case response_body (if claude then lit ''completion'' else lit ''text'') of
                          Some JOther \<Rightarrow> Inl LLMServiceError
                        | field \<Rightarrow>
                            let filename =
                                  strip_ws U (case field of Some (JString t) \<Rightarrow> t | _ \<Rightarrow> []);
                                filename = clean_response U filename
                            in if filename \<noteq> [] then Inr filename
                               else Inr (fallback_filename now)))))"

subsection \<open>\<open>LLMService.generate_filename\<close>\<close>

text \<open>The result is a sum so that an exception leaving the method would show as \<open>Inl\<close>.
  \<open>active_generator\<close> is the body of the \<open>try\<close>: the generator of the mode, or the
  fallback name returned at once for a mode that is neither. The \<open>except Exception\<close> turns
  an exception of the generator into the fallback name.\<close>

definition active_generator ::
  "unicode \<Rightarrow> datetime \<Rightarrow> llm_service \<Rightarrow> pystr \<Rightarrow> llm_exn + pystr" where
  "active_generator U now svc content_sample =
     (if mode svc = lit ''simulated'' then Inr (simulate_filename U now content_sample)
      else if mode svc = lit ''bedrock'' then bedrock_filename U now svc content_sample
      else Inr (fallback_filename now))"

definition generate_filename ::
  "unicode \<Rightarrow> datetime \<Rightarrow> llm_service \<Rightarrow> pystr \<Rightarrow> pystr \<Rightarrow> llm_exn + pystr" where
  "generate_filename U now svc content_sample original_filename =
     (if content_sample = [] \<or> strip_ws U content_sample = [] then Inr (fallback_filename now)
      else
        (case active_generator U now svc content_sample of
           Inr filename \<Rightarrow> Inr filename
         | Inl e \<Rightarrow> Inr (fallback_filename now)))"

section \<open>file\_processor.py\<close>





section \<open>Notions of the specification\<close>

text \<open>The value of a string of decimal digits, and the dates \<open>datetime.now()\<close> can give
  with a year of four digits.\<close>

definition decimal :: "pystr \<Rightarrow> nat" where
  "decimal s = foldl (\<lambda>a c. 10 * a + (c - 0x30)) 0 s"

definition valid_datetime :: "datetime \<Rightarrow> bool" where
  "valid_datetime now \<longleftrightarrow>
     1000 \<le> year now \<and> year now \<le> 9999 \<and> 1 \<le> month now \<and> month now \<le> 12
     \<and> 1 \<le> day now \<and> day now \<le> 31 \<and> hour now < 24 \<and> minute now < 60 \<and> second now < 60"

text \<open>The characters a file system forbids in a name:
  \<^verbatim>\<open>/ \ : * ? " < > |\<close>.\<close>

definition forbidden_chars :: "nat set" where
  "forbidden_chars = {0x2F, 0x5C, 0x3A, 0x2A, 0x3F, 0x22, 0x3C, 0x3E, 0x7C}"

text \<open>Removing duplicates, the first occurrence staying in place.\<close>

fun uniq :: "'a list \<Rightarrow> 'a list" where
  "uniq [] = []"
| "uniq (x # xs) = x # uniq (removeAll x xs)"

text \<open>The maximal runs of word characters of a text, and among them the whole words of
  four or more ASCII letters.\<close>

function word_runs :: "unicode \<Rightarrow> pystr \<Rightarrow> pystr list" where
  "word_runs U [] = []"
| "word_runs U (c # cs) =
     (if is_word U c
      then takeWhile (is_word U) (c # cs) # word_runs U (dropWhile (is_word U) cs)
      else word_runs U cs)"
  by pat_completeness auto
termination
  by (relation "measure (\<lambda>(U, s). length s)")
     (auto simp: less_Suc_eq_le length_dropWhile_le)

definition whole_word_tokens :: "unicode \<Rightarrow> pystr \<Rightarrow> pystr list" where
  "whole_word_tokens U s =
     filter (\<lambda>w. 4 \<le> length w \<and> list_all ascii_letter w) (word_runs U s)"

text \<open>The tokens as the specification words them: the runs of four or more alphabetic
  characters, a run being a maximal sequence of letters.\<close>

function letter_runs :: "pystr \<Rightarrow> pystr list" where
  "letter_runs [] = []"
| "letter_runs (c # cs) =
     (if ascii_letter c
      then takeWhile ascii_letter (c # cs) # letter_runs (dropWhile ascii_letter cs)
      else letter_runs cs)"
  by pat_completeness auto
termination
  by (relation "measure length") (auto simp: less_Suc_eq_le length_dropWhile_le)

definition spec_tokens :: "pystr \<Rightarrow> pystr list" where
  "spec_tokens s = filter (\<lambda>w. 4 \<le> length w) (letter_runs s)"

text \<open>The name of the heuristic generator from a list of tokens: stop words dropped,
  duplicates removed, up to five kept, the first three capitalized and joined.\<close>

definition name_of_tokens :: "unicode \<Rightarrow> pystr list \<Rightarrow> pystr" where
  "name_of_tokens U tokens =
     py_join (lit ''_'')
       (map (py_capitalize U)
          (take 3 (take 5 (uniq (filter (\<lambda>w. w \<notin> set common_words) tokens)))))"

text \<open>Capitalizing a word of ASCII letters.\<close>

definition ascii_capitalize :: "pystr \<Rightarrow> pystr" where
  "ascii_capitalize w =
     (case w of
        [] \<Rightarrow> []
      | c # cs \<Rightarrow> (if ascii_lower c then c - 0x20 else c)
                   # map (\<lambda>x. if ascii_upper x then x + 0x20 else x) cs)"

text \<open>The characters of the names the naming service builds: ASCII letters and digits,
  underscore and hyphen.\<close>

definition name_char :: "nat \<Rightarrow> bool" where
  "name_char c \<longleftrightarrow> ascii_letter c \<or> ascii_digit c \<or> c = 0x5F \<or> c = 0x2D"

section \<open>Properties\<close>

subsection \<open>Stripping\<close>

lemma rev_dropWhile_split:
  "xs = rev (dropWhile P (rev xs)) @ rev (takeWhile P (rev xs))"
  by (metis rev_append rev_rev_ident takeWhile_dropWhile_id)

lemma strip_chars_decomp:
  "\<exists>pre suf. s = pre @ strip_chars chars s @ suf
      \<and> set pre \<subseteq> set chars \<and> set suf \<subseteq> set chars"
proof -
  let ?P = "\<lambda>c. c \<in> set chars"
  let ?m = "dropWhile ?P s"
  have a: "s = takeWhile ?P s @ ?m" by simp
  have c: "?m = strip_chars chars s @ rev (takeWhile ?P (rev ?m))"
    unfolding strip_chars_def by (rule rev_dropWhile_split)
  have d: "set (takeWhile ?P s) \<subseteq> set chars"
    using set_takeWhileD by fastforce
  have e: "set (rev (takeWhile ?P (rev ?m))) \<subseteq> set chars"
    using set_takeWhileD by fastforce
  from a c have "s = takeWhile ?P s @ strip_chars chars s @ rev (takeWhile ?P (rev ?m))"
    by simp
  with d e show ?thesis by blast
qed

lemma strip_chars_hd:
  assumes "strip_chars chars s \<noteq> []"
  shows "hd (strip_chars chars s) \<notin> set chars"
proof -
  let ?P = "\<lambda>c. c \<in> set chars"
  let ?m = "dropWhile ?P s"
  let ?r = "dropWhile ?P (rev ?m)"
  from assms have ne: "?r \<noteq> []" by (simp add: strip_chars_def)
  have mne: "?m \<noteq> []"
  proof
    assume m: "?m = []"
    have "?r = []" unfolding m by simp
    with ne show False by blast
  qed
  have "\<not> ?P (hd ?m)" using mne hd_dropWhile by blast
  moreover have "hd (rev ?r) = hd ?m"
  proof -
    have "?m = rev ?r @ rev (takeWhile ?P (rev ?m))"
      by (rule rev_dropWhile_split)
    then have "hd ?m = hd (rev ?r @ rev (takeWhile ?P (rev ?m)))" by simp
    also have "\<dots> = hd (rev ?r)" using ne by simp
    finally show ?thesis by simp
  qed
  ultimately show ?thesis by (simp add: strip_chars_def)
qed

lemma strip_chars_last:
  assumes "strip_chars chars s \<noteq> []"
  shows "last (strip_chars chars s) \<notin> set chars"
proof -
  let ?P = "\<lambda>c. c \<in> set chars"
  let ?r = "dropWhile ?P (rev (dropWhile ?P s))"
  from assms have ne: "?r \<noteq> []" by (simp add: strip_chars_def)
  then have "\<not> ?P (hd ?r)" using hd_dropWhile by blast
  moreover have "last (rev ?r) = hd ?r" using ne by (simp add: last_rev)
  ultimately show ?thesis by (simp add: strip_chars_def)
qed

lemma strip_chars_subset: "set (strip_chars chars s) \<subseteq> set s"
  using strip_chars_decomp [of s chars] by (metis Un_iff set_append subsetI)

subsection \<open>Conflict resolution\<close>

lemma str_nat_nonempty: "str_nat n \<noteq> []"
  by (subst str_nat.simps) simp

lemma str_nat_inj: "str_nat a = str_nat b \<Longrightarrow> a = b"
proof (induction a arbitrary: b rule: str_nat.induct)
  case (1 a)
  show ?case
  proof (cases "a < 10")
    case True
    note a = this
    show ?thesis
    proof (cases "b < 10")
      case True
      with a "1.prems" show ?thesis by (simp add: str_nat.simps [of a] str_nat.simps [of b])
    next
      case False
      with a "1.prems" str_nat_nonempty [of "b div 10"] show ?thesis
        by (simp add: str_nat.simps [of a] str_nat.simps [of b])
    qed
  next
    case False
    note a = this
    show ?thesis
    proof (cases "b < 10")
      case True
      with a "1.prems" str_nat_nonempty [of "a div 10"] show ?thesis
        by (simp add: str_nat.simps [of a] str_nat.simps [of b])
    next
      case False
      with a "1.prems" have e: "str_nat (a div 10) = str_nat (b div 10)" and m: "a mod 10 = b mod 10"
        by (simp_all add: str_nat.simps [of a] str_nat.simps [of b])
      from "1.IH" [OF a e] have "a div 10 = b div 10" .
      with m show ?thesis by (metis div_mult_mod_eq)
    qed
  qed
qed

lemma suffixed_path_inj: "suffixed_path t a = suffixed_path t b \<Longrightarrow> a = b"
  by (auto simp: suffixed_path_def dest: str_nat_inj)

lemma probe_finds:
  assumes "c \<le> n" and "\<forall>m. c \<le> m \<and> m < n \<longrightarrow> suffixed_path t m \<in> fs"
    and "suffixed_path t n \<notin> fs"
  shows "probe env fs t c =
           Some (if exists_raises env (suffixed_path t n) then Inl Stat_OSError
                 else Inr (suffixed_path t n))"
  using assms
proof (induction "n - c" arbitrary: c)
  case 0
  then have "c = n" by simp
  with "0.prems" show ?case by (subst probe.simps) (simp add: path_exists_def)
next
  case (Suc d)
  then have lt: "c < n" by simp
  with Suc.prems have in_fs: "suffixed_path t c \<in> fs" by simp
  have "probe env fs t (c + 1) =
           Some (if exists_raises env (suffixed_path t n) then Inl Stat_OSError
                 else Inr (suffixed_path t n))"
    using Suc.hyps(1) [of "c + 1"] Suc.hyps(2) Suc.prems lt by simp
  with in_fs show ?case by (subst probe.simps) (simp add: path_exists_def)
qed

lemma free_suffix_exists:
  assumes "finite fs"
  shows "\<exists>n\<ge>1. suffixed_path t n \<notin> fs"
proof (rule ccontr)
  assume "\<not> ?thesis"
  then have sub: "suffixed_path t ` {1..} \<subseteq> fs" by auto
  have "inj_on (suffixed_path t) {1..}" by (rule inj_onI) (rule suffixed_path_inj)
  with sub assms have "finite ({1..} :: nat set)"
    using finite_imageD finite_subset by blast
  then show False using infinite_Ici by blast
qed

lemma handle_conflict_least:
  assumes "finite fs"
  shows "\<exists>q. q \<notin> fs
           \<and> (target_path \<notin> fs \<longrightarrow> q = target_path)
           \<and> (target_path \<in> fs \<longrightarrow>
                (\<exists>n\<ge>1. q = suffixed_path target_path n
                    \<and> (\<forall>m. 1 \<le> m \<and> m < n \<longrightarrow> suffixed_path target_path m \<in> fs)))
           \<and> handle_conflict env fs target_path =
                Some (if exists_raises env q then Inl Stat_OSError else Inr q)"
proof (cases "target_path \<in> fs")
  case False
  then have "handle_conflict env fs target_path =
               Some (if exists_raises env target_path then Inl Stat_OSError else Inr target_path)"
    by (simp add: handle_conflict_def path_exists_def)
  with False show ?thesis by blast
next
  case True
  from free_suffix_exists [OF assms, of target_path]
  obtain j where j: "1 \<le> j \<and> suffixed_path target_path j \<notin> fs" by blast
  define n where "n = (LEAST j. 1 \<le> j \<and> suffixed_path target_path j \<notin> fs)"
  have n: "1 \<le> n \<and> suffixed_path target_path n \<notin> fs"
    unfolding n_def using j by (rule LeastI)
  have below: "\<forall>m. 1 \<le> m \<and> m < n \<longrightarrow> suffixed_path target_path m \<in> fs"
  proof (intro allI impI)
    fix m assume m: "1 \<le> m \<and> m < n"
    then have "\<not> (1 \<le> m \<and> suffixed_path target_path m \<notin> fs)"
      unfolding n_def using not_less_Least by blast
    with m show "suffixed_path target_path m \<in> fs" by simp
  qed
  have "probe env fs target_path 1 =
          Some (if exists_raises env (suffixed_path target_path n) then Inl Stat_OSError
                else Inr (suffixed_path target_path n))"
    using probe_finds [of 1 n target_path fs env] n below by simp
  then have "handle_conflict env fs target_path =
          Some (if exists_raises env (suffixed_path target_path n) then Inl Stat_OSError
                else Inr (suffixed_path target_path n))"
    using True by (simp add: handle_conflict_def path_exists_def)
  with True n below show ?thesis by blast
qed

text \<open>
  Claim C10, as amended. For every target path and every finite set of existing paths, the
  probe of \<open>_handle_conflict\<close> ends. Let \<open>q\<close> be the target itself when it does not exist,
  and otherwise the path \<open>stem_n + suffix\<close> for the least \<open>n \<ge> 1\<close> whose path does not
  exist; such an \<open>n\<close> always exists. The probe returns \<open>q\<close>, unless \<open>exists()\<close> raises an
  \<open>OSError\<close> on \<open>q\<close>: then the probe ends with that exception. In particular it returns
  \<open>q\<close> whenever \<open>exists()\<close> raises on no path.
\<close>

theorem handle_conflict_terminates:
  assumes "finite fs"
  shows "\<exists>q. q \<notin> fs
           \<and> (target_path \<notin> fs \<longrightarrow> q = target_path)
           \<and> (target_path \<in> fs \<longrightarrow>
                (\<exists>n\<ge>1. q = suffixed_path target_path n
                    \<and> (\<forall>m. 1 \<le> m \<and> m < n \<longrightarrow> suffixed_path target_path m \<in> fs)))
           \<and> handle_conflict env fs target_path =
                Some (if exists_raises env q then Inl Stat_OSError else Inr q)
           \<and> ((\<forall>p. \<not> exists_raises env p) \<longrightarrow> handle_conflict env fs target_path = Some (Inr q))"
proof -
  from handle_conflict_least [OF assms, of target_path env] obtain q where
    q: "q \<notin> fs" "target_path \<notin> fs \<longrightarrow> q = target_path"
      "target_path \<in> fs \<longrightarrow>
                (\<exists>n\<ge>1. q = suffixed_path target_path n
                    \<and> (\<forall>m. 1 \<le> m \<and> m < n \<longrightarrow> suffixed_path target_path m \<in> fs))"
      "handle_conflict env fs target_path =
                Some (if exists_raises env q then Inl Stat_OSError else Inr q)"
    by blast
  from q(4) have "(\<forall>p. \<not> exists_raises env p) \<longrightarrow> handle_conflict env fs target_path = Some (Inr q)"
    by simp
  with q show ?thesis by blast
qed

text \<open>
  Claim C10 as stated fails where \<open>exists()\<close> raises: for a target whose name has more
  than 255 characters, which does not exist, \<open>stat\<close> fails with \<open>ENAMETOOLONG\<close>, and
  \<open>_handle_conflict\<close> ends with the \<open>OSError\<close> instead of returning the target.
\<close>

theorem handle_conflict_terminates_counterexample:
  "handle_conflict
       \<lparr>mkdir_ok = True, os_rename = (\<lambda>j. Renamed),
        exists_raises = (\<lambda>p. 255 < length (name p))\<rparr>
       {} (Path (lit ''out'') (replicate 300 0x61 @ lit ''.txt''))
     = Some (Inl Stat_OSError)
   \<and> Path (lit ''out'') (replicate 300 0x61 @ lit ''.txt'') \<notin> {}"
  by (simp add: handle_conflict_def path_exists_def)

theorem handle_conflict_terminates_witness:
  "handle_conflict \<lparr>mkdir_ok = True, os_rename = (\<lambda>j. Renamed), exists_raises = (\<lambda>p. False)\<rparr>
       {Path (lit ''out'') (lit ''a.txt''), Path (lit ''out'') (lit ''a_1.txt'')}
       (Path (lit ''out'') (lit ''a.txt''))
     = Some (Inr (Path (lit ''out'') (lit ''a_2.txt'')))
   \<and> Path (lit ''out'') (lit ''a_2.txt'')
       \<notin> {Path (lit ''out'') (lit ''a.txt''), Path (lit ''out'') (lit ''a_1.txt'')}"
proof -
  let ?env = "\<lparr>mkdir_ok = True, os_rename = (\<lambda>j. Renamed), exists_raises = (\<lambda>p. False)\<rparr>"
  let ?t = "Path (lit ''out'') (lit ''a.txt'')"
  let ?fs = "{?t, Path (lit ''out'') (lit ''a_1.txt'')}"
  have v: "handle_conflict ?env ?fs ?t = Some (Inr (Path (lit ''out'') (lit ''a_2.txt'')))"
    by (simp add: handle_conflict_def path_exists_def probe.simps suffixed_path_def path_stem_def
          path_suffix_def rfind_def lit_def str_nat.simps Let_def)
  have f: "finite ?fs" by simp
  from handle_conflict_terminates [OF f, of ?t ?env] obtain q where
    q: "q \<notin> ?fs" "handle_conflict ?env ?fs ?t = Some (Inr q)" by auto
  from q(2) v have "q = Path (lit ''out'') (lit ''a_2.txt'')" by simp
  with q(1) v show ?thesis by blast
qed

subsection \<open>The move with retry\<close>

lemma attempts_first_other:
  assumes "a \<le> k" and "int k < retries"
    and "\<forall>j. a \<le> j \<and> j < k \<longrightarrow> os j = PermissionError"
    and "os k \<noteq> PermissionError"
  shows "attempts os src dst retries (int a) =
           ((case os k of Renamed \<Rightarrow> Inr True | _ \<Rightarrow> Inl OS_error_during_file_move),
            concat (replicate (k - a) [Rename src dst, Sleep 2]) @ [Rename src dst])"
  using assms
proof (induction "k - a" arbitrary: a)
  case 0
  then have "a = k" by simp
  with "0.prems" show ?case
    by (subst attempts.simps) (simp split: rename_outcome.splits)
next
  case (Suc d)
  then have lt: "a < k" by simp
  with Suc.prems have perm: "os a = PermissionError" by simp
  have more: "int a < retries - 1" using lt Suc.prems(2) by simp
  have step: "attempts os src dst retries (int a + 1) =
           ((case os k of Renamed \<Rightarrow> Inr True | _ \<Rightarrow> Inl OS_error_during_file_move),
            concat (replicate (k - Suc a) [Rename src dst, Sleep 2]) @ [Rename src dst])"
    using Suc.hyps(1) [of "Suc a"] Suc.hyps(2) Suc.prems lt by (simp add: add.commute)
  have k: "k - a = Suc (k - Suc a)" using lt by simp
  have lt': "int a < retries" using more by simp
  show ?case
    by (subst attempts.simps) (simp add: step perm more k lt')
qed

lemma attempts_all_permission:
  assumes "int a < retries"
    and "\<forall>j. a \<le> j \<and> int j < retries \<longrightarrow> os j = PermissionError"
  shows "attempts os src dst retries (int a) =
           (Inl (Permission_error_after retries),
            concat (replicate (nat retries - 1 - a) [Rename src dst, Sleep 2]) @ [Rename src dst])"
  using assms
proof (induction "nat retries - 1 - a" arbitrary: a)
  case 0
  then have last: "\<not> int a < retries - 1" by linarith
  have perm: "os a = PermissionError" using "0.prems" by simp
  from "0.hyps" "0.prems"(1) last perm show ?case
    by (subst attempts.simps) simp
next
  case (Suc d)
  then have more: "int a < retries - 1" by linarith
  have perm: "os a = PermissionError" using Suc.prems by simp
  have step: "attempts os src dst retries (int a + 1) =
           (Inl (Permission_error_after retries),
            concat (replicate (nat retries - 1 - Suc a) [Rename src dst, Sleep 2]) @ [Rename src dst])"
    using Suc.hyps(1) [of "Suc a"] Suc.hyps(2) Suc.prems more by (simp add: add.commute)
  have k: "nat retries - Suc a = Suc (nat retries - Suc (Suc a))" using Suc.hyps(2) by simp
  have lt: "int a < retries" using more by simp
  show ?case
    by (subst attempts.simps) (simp add: step perm more k lt)
qed

lemma move_with_retry_none: "retries \<le> 0 \<Longrightarrow> move_with_retry os src dst retries = (Inr False, [])"
  unfolding move_with_retry_def by (subst attempts.simps) simp

lemma move_with_retry_exhausted:
  assumes "1 \<le> retries" and "\<forall>j. int j < retries \<longrightarrow> os j = PermissionError"
  shows "move_with_retry os src dst retries =
           (Inl (Permission_error_after retries), retry_trace src dst (nat retries - 1))"
  using attempts_all_permission [of 0 retries os src dst] assms
  by (simp add: move_with_retry_def retry_trace_def)

lemma move_with_retry_first_other:
  assumes "int k < retries" and "\<forall>j<k. os j = PermissionError" and "os k \<noteq> PermissionError"
  shows "move_with_retry os src dst retries =
           ((case os k of Renamed \<Rightarrow> Inr True | _ \<Rightarrow> Inl OS_error_during_file_move),
            retry_trace src dst k)"
  using attempts_first_other [of 0 k retries os src dst] assms
  by (simp add: move_with_retry_def retry_trace_def)

lemma move_with_retry_permission_only:
  assumes "fst (move_with_retry os src dst retries) = Inl (Permission_error_after r)"
  shows "r = retries \<and> 1 \<le> retries \<and> (\<forall>j. int j < retries \<longrightarrow> os j = PermissionError)"
proof -
  have pos: "1 \<le> retries"
  proof (rule ccontr)
    assume "\<not> 1 \<le> retries"
    then have "move_with_retry os src dst retries = (Inr False, [])"
      by (simp add: move_with_retry_none)
    with assms show False by simp
  qed
  have all: "\<forall>j. int j < retries \<longrightarrow> os j = PermissionError"
  proof (rule ccontr)
    assume "\<not> ?thesis"
    then obtain j where j: "int j < retries \<and> os j \<noteq> PermissionError" by blast
    define k where "k = (LEAST j. int j < retries \<and> os j \<noteq> PermissionError)"
    have k: "int k < retries \<and> os k \<noteq> PermissionError"
      unfolding k_def using j by (rule LeastI)
    have below: "\<forall>i<k. os i = PermissionError"
    proof (intro allI impI)
      fix i assume "i < k"
      then have "\<not> (int i < retries \<and> os i \<noteq> PermissionError)"
        unfolding k_def by (rule not_less_Least)
      moreover have "int i < retries" using \<open>i < k\<close> k by simp
      ultimately show "os i = PermissionError" by simp
    qed
    from move_with_retry_first_other [of k retries os src dst] k below
    have "fst (move_with_retry os src dst retries) =
            (case os k of Renamed \<Rightarrow> Inr True | _ \<Rightarrow> Inl OS_error_during_file_move)"
      by simp
    with assms k show False by (cases "os k") simp_all
  qed
  from move_with_retry_exhausted [OF pos all, of src dst] assms have "r = retries" by simp
  with pos all show ?thesis by blast
qed

text \<open>
  Claim C5. In \<open>_move_with_retry\<close> a \<open>PermissionError\<close> is retried after a sleep of 2
  seconds, up to \<open>retries\<close> attempts in all: when every one of the \<open>retries\<close> attempts
  raises \<open>PermissionError\<close>, the move fails with the permission error after \<open>retries\<close>
  calls of \<open>os.rename\<close> and \<open>retries - 1\<close> sleeps, and the permission error is raised in
  no other case. Another \<open>OSError\<close> at attempt \<open>k + 1\<close>, after \<open>k\<close> permission errors,
  fails at once: the trace ends with that call of \<open>os.rename\<close>. A success at attempt
  \<open>k + 1\<close> returns \<open>True\<close>. \<open>organize_file\<close> moves with the default of 3 attempts:
  when its source exists, \<open>mkdir\<close> succeeds and the conflict resolution has returned a
  target, three permission errors make it fail after three calls of \<open>os.rename\<close> and two
  sleeps.
\<close>

theorem move_with_retry_spec:
  "(1 \<le> retries \<and> (\<forall>j. int j < retries \<longrightarrow> os j = PermissionError) \<longrightarrow>
      move_with_retry os src dst retries =
        (Inl (Permission_error_after retries), retry_trace src dst (nat retries - 1)))
   \<and> (\<forall>k. int k < retries \<and> (\<forall>j<k. os j = PermissionError) \<and> os k = OtherOSError \<longrightarrow>
          move_with_retry os src dst retries = (Inl OS_error_during_file_move, retry_trace src dst k))
   \<and> (\<forall>k. int k < retries \<and> (\<forall>j<k. os j = PermissionError) \<and> os k = Renamed \<longrightarrow>
          move_with_retry os src dst retries = (Inr True, retry_trace src dst k))
   \<and> (\<forall>r. fst (move_with_retry os src dst retries) = Inl (Permission_error_after r) \<longrightarrow>
          r = retries \<and> 1 \<le> retries \<and> (\<forall>j. int j < retries \<longrightarrow> os j = PermissionError))
   \<and> (\<forall>p. source_path \<in> fs \<and> mkdir_ok env
        \<and> handle_conflict env fs
              (Path organized_path (sanitize_filename new_name @ path_suffix (name source_path)))
            = Some (Inr p)
        \<and> (\<forall>j<3. os_rename env j = PermissionError) \<longrightarrow>
        organize_file env fs organized_path source_path new_name =
          Some (Inl (FileOrganizerError (Permission_error_after 3)), fs,
                [Rename source_path p, Sleep 2, Rename source_path p, Sleep 2,
                 Rename source_path p]))"
proof (intro conjI allI impI)
  assume "1 \<le> retries \<and> (\<forall>j. int j < retries \<longrightarrow> os j = PermissionError)"
  then show "move_with_retry os src dst retries =
        (Inl (Permission_error_after retries), retry_trace src dst (nat retries - 1))"
    using move_with_retry_exhausted by blast
next
  fix k
  assume "int k < retries \<and> (\<forall>j<k. os j = PermissionError) \<and> os k = OtherOSError"
  then show "move_with_retry os src dst retries = (Inl OS_error_during_file_move, retry_trace src dst k)"
    using move_with_retry_first_other [of k retries os src dst] by simp
next
  fix k
  assume "int k < retries \<and> (\<forall>j<k. os j = PermissionError) \<and> os k = Renamed"
  then show "move_with_retry os src dst retries = (Inr True, retry_trace src dst k)"
    using move_with_retry_first_other [of k retries os src dst] by simp
next
  fix r
  assume a: "fst (move_with_retry os src dst retries) = Inl (Permission_error_after r)"
  from move_with_retry_permission_only [OF a]
  show "r = retries" and "1 \<le> retries" by blast+
  fix j assume "int j < retries"
  with move_with_retry_permission_only [OF a] show "os j = PermissionError" by blast
next
  fix p
  assume a: "source_path \<in> fs \<and> mkdir_ok env
        \<and> handle_conflict env fs
              (Path organized_path (sanitize_filename new_name @ path_suffix (name source_path)))
            = Some (Inr p)
        \<and> (\<forall>j<3. os_rename env j = PermissionError)"
  have m: "move_with_retry (os_rename env) source_path p 3 =
             (Inl (Permission_error_after 3), retry_trace source_path p (nat 3 - 1))"
    using move_with_retry_exhausted [of 3 "os_rename env" source_path p] a by simp
  have t: "retry_trace source_path p (nat 3 - 1) =
      [Rename source_path p, Sleep 2, Rename source_path p, Sleep 2, Rename source_path p]"
    by (simp add: retry_trace_def numeral_2_eq_2)
  from a m t show "organize_file env fs organized_path source_path new_name =
          Some (Inl (FileOrganizerError (Permission_error_after 3)), fs,
                [Rename source_path p, Sleep 2, Rename source_path p, Sleep 2,
                 Rename source_path p])"
    by (simp add: organize_file_def path_exists_def Let_def)
qed

theorem move_with_retry_spec_witness:
  "move_with_retry (\<lambda>j. PermissionError) (Path (lit ''in'') (lit ''a.txt''))
       (Path (lit ''out'') (lit ''X.txt'')) 3 =
     (Inl (Permission_error_after 3),
      [Rename (Path (lit ''in'') (lit ''a.txt'')) (Path (lit ''out'') (lit ''X.txt'')), Sleep 2,
       Rename (Path (lit ''in'') (lit ''a.txt'')) (Path (lit ''out'') (lit ''X.txt'')), Sleep 2,
       Rename (Path (lit ''in'') (lit ''a.txt'')) (Path (lit ''out'') (lit ''X.txt''))])
   \<and> move_with_retry (\<lambda>j. if j < 1 then PermissionError else OtherOSError)
       (Path (lit ''in'') (lit ''a.txt'')) (Path (lit ''out'') (lit ''X.txt'')) 3 =
     (Inl OS_error_during_file_move,
      [Rename (Path (lit ''in'') (lit ''a.txt'')) (Path (lit ''out'') (lit ''X.txt'')), Sleep 2,
       Rename (Path (lit ''in'') (lit ''a.txt'')) (Path (lit ''out'') (lit ''X.txt''))])
   \<and> move_with_retry (\<lambda>j. if j < 2 then PermissionError else Renamed)
       (Path (lit ''in'') (lit ''a.txt'')) (Path (lit ''out'') (lit ''X.txt'')) 3 =
     (Inr True,
      [Rename (Path (lit ''in'') (lit ''a.txt'')) (Path (lit ''out'') (lit ''X.txt'')), Sleep 2,
       Rename (Path (lit ''in'') (lit ''a.txt'')) (Path (lit ''out'') (lit ''X.txt'')), Sleep 2,
       Rename (Path (lit ''in'') (lit ''a.txt'')) (Path (lit ''out'') (lit ''X.txt''))])"
proof -
  let ?s = "Path (lit ''in'') (lit ''a.txt'')"
  let ?d = "Path (lit ''out'') (lit ''X.txt'')"
  have t: "retry_trace ?s ?d (nat 3 - 1) = [Rename ?s ?d, Sleep 2, Rename ?s ?d, Sleep 2, Rename ?s ?d]"
    "retry_trace ?s ?d 1 = [Rename ?s ?d, Sleep 2, Rename ?s ?d]"
    "retry_trace ?s ?d 2 = [Rename ?s ?d, Sleep 2, Rename ?s ?d, Sleep 2, Rename ?s ?d]"
    by (simp_all add: retry_trace_def numeral_2_eq_2)
  have a: "move_with_retry (\<lambda>j. PermissionError) ?s ?d 3 =
     (Inl (Permission_error_after 3), retry_trace ?s ?d (nat 3 - 1))"
    by (rule move_with_retry_spec [of 3 "\<lambda>j. PermissionError", THEN conjunct1, rule_format])
       simp
  have b: "move_with_retry (\<lambda>j. if j < 1 then PermissionError else OtherOSError) ?s ?d 3 =
     (Inl OS_error_during_file_move, retry_trace ?s ?d 1)"
    by (rule move_with_retry_spec [of 3 "\<lambda>j. if j < 1 then PermissionError else OtherOSError",
          THEN conjunct2, THEN conjunct1, rule_format, of 1]) simp
  have c: "move_with_retry (\<lambda>j. if j < 2 then PermissionError else Renamed) ?s ?d 3 =
     (Inr True, retry_trace ?s ?d 2)"
    by (rule move_with_retry_spec [of 3 "\<lambda>j. if j < 2 then PermissionError else Renamed",
          THEN conjunct2, THEN conjunct2, THEN conjunct1, rule_format, of 2]) simp
  from a b c show ?thesis unfolding t by blast
qed

subsection \<open>Organizing a file\<close>




























subsection \<open>Text extraction\<close>

text \<open>
  Claim C7, as amended. For every file and every \<open>max_length \<ge> 0\<close>, when the source
  yields a text, \<open>extract_text\<close> returns a text of at most \<open>max_length\<close> code points: the
  source text unchanged when it is shorter than \<open>max_length\<close>, and otherwise its prefix of
  exactly \<open>max_length\<close> code points. The result is always a prefix of the source text.
\<close>

theorem extract_text_truncates:
  assumes "0 \<le> max_length" and "file_path \<in> fs" and "source_text U R file_path = Inr src"
  shows "\<exists>t. extract_text U R env fs max_length file_path = Inr t
           \<and> int (length t) \<le> max_length
           \<and> (int (length src) < max_length \<longrightarrow> t = src)
           \<and> (max_length \<le> int (length src) \<longrightarrow>
                 int (length t) = max_length \<and> t = take (nat max_length) src)
           \<and> (\<exists>rest. src = t @ rest)"
proof -
  have e: "extract_text U R env fs max_length file_path = Inr (take (nat max_length) src)"
    using assms by (simp add: extract_text_def path_exists_def slice_to_def)
  have "src = take (nat max_length) src @ drop (nat max_length) src" by simp
  then have "\<exists>rest. src = take (nat max_length) src @ rest" by blast
  with e assms(1) show ?thesis by (auto simp: min_def)
qed

text \<open>
  Claim C7 as stated fails for a negative \<open>max_length\<close>: the slice \<open>text[:-1]\<close> of
  \<open>"abc"\<close> is \<open>"ab"\<close>, of length 2, which is not at most \<open>-1\<close>.
\<close>

theorem extract_text_truncates_counterexample:
  "extract_text ascii_only
      \<lparr>read_pdf = (\<lambda>p. Inl PdfReadError), read_text = (\<lambda>p e. Inr (lit ''abc''))\<rparr>
      \<lparr>mkdir_ok = True, os_rename = (\<lambda>j. Renamed), exists_raises = (\<lambda>p. False)\<rparr>
      {Path (lit ''in'') (lit ''a.txt'')} (- 1) (Path (lit ''in'') (lit ''a.txt''))
     = Inr (lit ''ab'')
   \<and> \<not> int (length (lit ''ab'')) \<le> - 1"
  by (simp add: extract_text_def path_exists_def source_text_def extract_from_text_def slice_to_def
        py_lower_def lower_at_def ascii_upper_def path_suffix_def rfind_def lit_def Let_def
        upt_rec [of _ "length _"])

theorem extract_text_truncates_witness:
  "extract_text ascii_only
      \<lparr>read_pdf = (\<lambda>p. Inl PdfReadError), read_text = (\<lambda>p e. Inr (lit ''abcdef''))\<rparr>
      \<lparr>mkdir_ok = True, os_rename = (\<lambda>j. Renamed), exists_raises = (\<lambda>p. False)\<rparr>
      {Path (lit ''in'') (lit ''a.txt'')} 4 (Path (lit ''in'') (lit ''a.txt''))
     = Inr (lit ''abcd'')
   \<and> extract_text ascii_only
      \<lparr>read_pdf = (\<lambda>p. Inl PdfReadError), read_text = (\<lambda>p e. Inr (lit ''abcdef''))\<rparr>
      \<lparr>mkdir_ok = True, os_rename = (\<lambda>j. Renamed), exists_raises = (\<lambda>p. False)\<rparr>
      {Path (lit ''in'') (lit ''a.txt'')} 9 (Path (lit ''in'') (lit ''a.txt''))
     = Inr (lit ''abcdef'')"
proof -
  let ?R = "\<lparr>read_pdf = (\<lambda>p. Inl PdfReadError), read_text = (\<lambda>p e. Inr (lit ''abcdef''))\<rparr>"
  let ?p = "Path (lit ''in'') (lit ''a.txt'')"
  let ?env = "\<lparr>mkdir_ok = True, os_rename = (\<lambda>j. Renamed), exists_raises = (\<lambda>p. False)\<rparr>"
  have src: "source_text ascii_only ?R ?p = Inr (lit ''abcdef'')"
    by (simp add: source_text_def extract_from_text_def
        py_lower_def lower_at_def ascii_upper_def path_suffix_def rfind_def lit_def Let_def
        upt_rec [of _ "length _"])
  have mem: "?p \<in> {?p}" by simp
  from extract_text_truncates [OF _ mem src, of 4 ?env] obtain t where
    t: "extract_text ascii_only ?R ?env {?p} 4 ?p = Inr t" "t = take (nat 4) (lit ''abcdef'')"
    by (auto simp: lit_def)
  from extract_text_truncates [OF _ mem src, of 9 ?env] obtain t' where
    t': "extract_text ascii_only ?R ?env {?p} 9 ?p = Inr t'" "t' = lit ''abcdef''"
    by (auto simp: lit_def)
  from t t' show ?thesis by (simp add: lit_def)
qed

subsection \<open>The naming service\<close>

lemma strip_ws_empty_iff: "strip_ws U s = [] \<longleftrightarrow> (\<forall>c \<in> set s. is_space U c)"
proof
  assume a: "strip_ws U s = []"
  let ?m = "dropWhile (is_space U) s"
  from a have all: "\<forall>c \<in> set ?m. is_space U c" by (simp add: strip_ws_def)
  have "?m = []"
  proof (rule ccontr)
    assume ne: "?m \<noteq> []"
    then have "\<not> is_space U (hd ?m)" by (rule hd_dropWhile)
    moreover from ne have "hd ?m \<in> set ?m" by (rule hd_in_set)
    ultimately show False using all by blast
  qed
  then show "\<forall>c \<in> set s. is_space U c"
    unfolding dropWhile_eq_Nil_conv by blast
next
  assume "\<forall>c \<in> set s. is_space U c"
  then have m: "dropWhile (is_space U) s = []" by simp
  show "strip_ws U s = []" unfolding strip_ws_def m by simp
qed

lemma digit_char: "ascii_digit (0x30 + x mod 10)"
proof -
  have "x mod 10 < 10" by simp
  then have "x mod 10 \<le> 9" by linarith
  then show ?thesis by (simp add: ascii_digit_def)
qed

lemma decimal_two: "decimal [0x30 + a, 0x30 + b] = 10 * a + b"
  by (simp add: decimal_def)

lemma decimal_four:
  "decimal [0x30 + a, 0x30 + b, 0x30 + c, 0x30 + d] = 10 * (10 * (10 * a + b) + c) + d"
  by (simp add: decimal_def)

lemma two_digits_decimal:
  assumes "n < 100"
  shows "length (two_digits n) = 2 \<and> (\<forall>c \<in> set (two_digits n). ascii_digit c)
         \<and> decimal (two_digits n) = n"
proof -
  have v: "10 * ((n div 10) mod 10) + n mod 10 = n" using assms by simp
  have "decimal (two_digits n) = n" unfolding two_digits_def decimal_two by (rule v)
  moreover have "\<forall>c \<in> set (two_digits n). ascii_digit c"
    unfolding two_digits_def using digit_char by simp
  moreover have "length (two_digits n) = 2" by (simp add: two_digits_def)
  ultimately show ?thesis by blast
qed

lemma four_digits_value:
  assumes "(n::nat) < 10000"
  shows "10 * (10 * (10 * ((n div 1000) mod 10) + (n div 100) mod 10) + (n div 10) mod 10)
          + n mod 10 = n"
proof -
  have d1: "n div 10 div 10 = n div 100" by (simp add: div_mult2_eq [symmetric])
  have d2: "n div 100 div 10 = n div 1000" by (simp add: div_mult2_eq [symmetric])
  have s: "(n div 1000) mod 10 = n div 1000" using assms by simp
  have e3: "10 * (n div 1000) + (n div 100) mod 10 = n div 100"
    using mult_div_mod_eq [of 10 "n div 100"] unfolding d2 by simp
  have e2: "10 * (n div 100) + (n div 10) mod 10 = n div 10"
    using mult_div_mod_eq [of 10 "n div 10"] unfolding d1 by simp
  have e1: "10 * (n div 10) + n mod 10 = n"
    using mult_div_mod_eq [of 10 n] by simp
  show ?thesis unfolding s e3 e2 e1 ..
qed

lemma four_digits_decimal:
  assumes "n < 10000"
  shows "length (four_digits n) = 4 \<and> (\<forall>c \<in> set (four_digits n). ascii_digit c)
         \<and> decimal (four_digits n) = n"
proof -
  have "decimal (four_digits n) = n"
    unfolding four_digits_def decimal_four by (rule four_digits_value [OF assms])
  moreover have "\<forall>c \<in> set (four_digits n). ascii_digit c"
    unfolding four_digits_def using digit_char by simp
  moreover have "length (four_digits n) = 4" by (simp add: four_digits_def)
  ultimately show ?thesis by blast
qed

lemma fallback_filename_format:
  assumes "valid_datetime now"
  shows "\<exists>Y M D h m s.
           fallback_filename now = lit ''document_'' @ Y @ M @ D @ lit ''_'' @ h @ m @ s
         \<and> length Y = 4 \<and> length M = 2 \<and> length D = 2
         \<and> length h = 2 \<and> length m = 2 \<and> length s = 2
         \<and> (\<forall>c \<in> set (Y @ M @ D @ h @ m @ s). ascii_digit c)
         \<and> decimal Y = year now \<and> decimal M = month now \<and> decimal D = day now
         \<and> decimal h = hour now \<and> decimal m = minute now \<and> decimal s = second now"
proof -
  from assms have r: "year now < 10000" "month now < 100" "day now < 100" "hour now < 100"
    "minute now < 100" "second now < 100"
    by (simp_all add: valid_datetime_def)
  note Y = four_digits_decimal [OF r(1)]
  note M = two_digits_decimal [OF r(2)]
  note D = two_digits_decimal [OF r(3)]
  note h = two_digits_decimal [OF r(4)]
  note m = two_digits_decimal [OF r(5)]
  note s = two_digits_decimal [OF r(6)]
  have "fallback_filename now = lit ''document_'' @ four_digits (year now)
          @ two_digits (month now) @ two_digits (day now) @ lit ''_''
          @ two_digits (hour now) @ two_digits (minute now) @ two_digits (second now)"
    by (simp add: fallback_filename_def strftime_def)
  moreover have "\<forall>c \<in> set (four_digits (year now) @ two_digits (month now)
          @ two_digits (day now) @ two_digits (hour now) @ two_digits (minute now)
          @ two_digits (second now)). ascii_digit c"
    using Y M D h m s by auto
  ultimately show ?thesis using Y M D h m s by blast
qed

lemma generate_filename_returns:
  "\<exists>filename. generate_filename U now svc content_sample original_filename = Inr filename"
  by (simp add: generate_filename_def split: sum.splits)

lemma generate_filename_blank:
  assumes "\<forall>c \<in> set content_sample. is_space U c"
  shows "generate_filename U now svc content_sample original_filename
           = Inr (fallback_filename now)"
  using assms strip_ws_empty_iff [of U content_sample] by (simp add: generate_filename_def)

lemma generate_filename_caught:
  assumes "active_generator U now svc content_sample = Inl e"
  shows "generate_filename U now svc content_sample original_filename
           = Inr (fallback_filename now)"
  using assms by (simp add: generate_filename_def)

text \<open>
  Claim C1. For every content sample and every original filename, \<open>generate_filename\<close>
  returns a name and raises nothing. For a content sample that is empty or only
  whitespace it returns the fallback name; when the generator of the active mode raises,
  it returns the fallback name too. The fallback name is \<open>"document_"\<close> followed by the
  local time as \<open>YYYYMMDD_HHMMSS\<close>: four digits of the year, two each of month and day,
  an underscore, two digits each of hour, minute and second.
\<close>

theorem generate_filename_never_raises:
  "(\<exists>filename. generate_filename U now svc content_sample original_filename = Inr filename)
   \<and> ((\<forall>c \<in> set content_sample. is_space U c) \<longrightarrow>
        generate_filename U now svc content_sample original_filename
          = Inr (fallback_filename now))
   \<and> (\<forall>e. active_generator U now svc content_sample = Inl e \<longrightarrow>
        generate_filename U now svc content_sample original_filename
          = Inr (fallback_filename now))
   \<and> (valid_datetime now \<longrightarrow>
        (\<exists>Y M D h m s.
           fallback_filename now = lit ''document_'' @ Y @ M @ D @ lit ''_'' @ h @ m @ s
         \<and> length Y = 4 \<and> length M = 2 \<and> length D = 2
         \<and> length h = 2 \<and> length m = 2 \<and> length s = 2
         \<and> (\<forall>c \<in> set (Y @ M @ D @ h @ m @ s). ascii_digit c)
         \<and> decimal Y = year now \<and> decimal M = month now \<and> decimal D = day now
         \<and> decimal h = hour now \<and> decimal m = minute now \<and> decimal s = second now))"
proof (intro conjI allI impI)
  show "\<exists>filename. generate_filename U now svc content_sample original_filename = Inr filename"
    by (rule generate_filename_returns)
next
  assume "\<forall>c \<in> set content_sample. is_space U c"
  then show "generate_filename U now svc content_sample original_filename
          = Inr (fallback_filename now)"
    by (rule generate_filename_blank)
next
  fix e assume "active_generator U now svc content_sample = Inl e"
  then show "generate_filename U now svc content_sample original_filename
          = Inr (fallback_filename now)"
    by (rule generate_filename_caught)
next
  assume "valid_datetime now"
  then show "\<exists>Y M D h m s.
           fallback_filename now = lit ''document_'' @ Y @ M @ D @ lit ''_'' @ h @ m @ s
         \<and> length Y = 4 \<and> length M = 2 \<and> length D = 2
         \<and> length h = 2 \<and> length m = 2 \<and> length s = 2
         \<and> (\<forall>c \<in> set (Y @ M @ D @ h @ m @ s). ascii_digit c)
         \<and> decimal Y = year now \<and> decimal M = month now \<and> decimal D = day now
         \<and> decimal h = hour now \<and> decimal m = minute now \<and> decimal s = second now"
    by (rule fallback_filename_format)
qed

theorem generate_filename_never_raises_witness:
  "generate_filename ascii_only
      \<lparr>year = 2024, month = 1, day = 5, hour = 9, minute = 3, second = 7\<rparr>
      \<lparr>mode = lit ''simulated'', bedrock_model = None, max_tokens = 50, bedrock_client = None\<rparr>
      (lit ''  '') (lit ''a.txt'')
     = Inr (lit ''document_20240105_090307'')
   \<and> generate_filename ascii_only
      \<lparr>year = 2024, month = 1, day = 5, hour = 9, minute = 3, second = 7\<rparr>
      \<lparr>mode = lit ''bedrock'', bedrock_model = Some (lit ''claude-v2''), max_tokens = 50,
        bedrock_client = Some (\<lambda>r. Inl ())\<rparr>
      (lit ''hello world'') (lit ''a.txt'')
     = Inr (lit ''document_20240105_090307'')"
proof -
  let ?now = "\<lparr>year = 2024, month = 1, day = 5, hour = 9, minute = 3, second = 7\<rparr>"
  let ?sim = "\<lparr>mode = lit ''simulated'', bedrock_model = None, max_tokens = 50,
                bedrock_client = None\<rparr>"
  let ?bed = "\<lparr>mode = lit ''bedrock'', bedrock_model = Some (lit ''claude-v2''),
                max_tokens = 50, bedrock_client = Some (\<lambda>r. Inl ())\<rparr>"
  have fb: "fallback_filename ?now = lit ''document_20240105_090307''"
    by (simp add: fallback_filename_def strftime_def four_digits_def two_digits_def lit_def)
  have blank: "\<forall>c \<in> set (lit ''  ''). is_space ascii_only c"
    by (simp add: lit_def is_space_def)
  have raised: "active_generator ascii_only ?now ?bed (lit ''hello world'') = Inl LLMServiceError"
    by (simp add: active_generator_def bedrock_filename_def lit_def Let_def)
  note thm1 = generate_filename_never_raises [of ascii_only ?now ?sim "lit ''  ''" "lit ''a.txt''"]
  note thm2 = generate_filename_never_raises
    [of ascii_only ?now ?bed "lit ''hello world''" "lit ''a.txt''"]
  from thm1 blank have a: "generate_filename ascii_only ?now ?sim (lit ''  '') (lit ''a.txt'')
      = Inr (fallback_filename ?now)" by blast
  from thm2 raised have b: "generate_filename ascii_only ?now ?bed (lit ''hello world'')
      (lit ''a.txt'') = Inr (fallback_filename ?now)" by blast
  from a b show ?thesis unfolding fb by blast
qed

subsection \<open>The characters of generated names\<close>

lemma name_char_ok: "name_char c \<Longrightarrow> c \<notin> forbidden_chars \<and> \<not> is_space U c"
  by (auto simp: name_char_def forbidden_chars_def is_space_def ascii_letter_def
        ascii_upper_def ascii_lower_def ascii_digit_def)

lemma fallback_name_chars:
  "fallback_filename now \<noteq> [] \<and> (\<forall>c \<in> set (fallback_filename now). name_char c)"
proof -
  have d: "\<And>x. name_char (0x30 + x mod 10)"
    using digit_char by (simp add: name_char_def)
  have l: "\<forall>c \<in> set (lit ''document_''). name_char c"
    by (simp add: lit_def name_char_def ascii_letter_def ascii_lower_def)
  have u: "\<forall>c \<in> set (lit ''_''). name_char c" by (simp add: lit_def name_char_def)
  have t: "\<forall>c \<in> set (strftime now). name_char c"
    unfolding strftime_def four_digits_def two_digits_def using d u by simp
  from l t show ?thesis by (auto simp: fallback_filename_def lit_def)
qed

lemma match_here_letters:
  assumes "match_here U pw s = Some j"
  shows "4 \<le> j \<and> j \<le> length (takeWhile ascii_letter s)"
proof -
  from assms have "try_end U pw s (length (takeWhile ascii_letter s)) = Some j"
    by (simp add: match_here_def split: if_splits)
  from try_end_range [OF this] show ?thesis .
qed

lemma take_letters:
  assumes "j \<le> length (takeWhile P s)"
  shows "\<forall>c \<in> set (take j s). P c"
proof -
  have "take j s = take j (takeWhile P s @ dropWhile P s)" by simp
  also have "\<dots> = take j (takeWhile P s)" using assms by (simp del: takeWhile_dropWhile_id)
  finally have "set (take j s) \<subseteq> set (takeWhile P s)" by (simp add: set_take_subset)
  then show ?thesis using set_takeWhileD by fastforce
qed

lemma findall_words_letters:
  "w \<in> set (findall_words U pw s) \<Longrightarrow> 4 \<le> length w \<and> (\<forall>c \<in> set w. ascii_letter c)"
proof (induction U pw s rule: findall_words.induct)
  case (1 U pw)
  then show ?case by (simp add: findall_words.simps)
next
  case (2 U pw c cs)
  show ?case
  proof (cases "match_here U pw (c # cs)")
    case None
    with "2.prems" "2.IH"(1) show ?thesis by (simp add: findall_words.simps)
  next
    case (Some k)
    from match_here_letters [OF Some] have k: "4 \<le> k" "k \<le> length (takeWhile ascii_letter (c # cs))"
      by simp_all
    from match_here_range [OF Some] have kl: "k \<le> length (c # cs)" by simp
    from "2.prems" Some have "w = take k (c # cs) \<or> w \<in> set (findall_words U True (drop k (c # cs)))"
      by (simp add: findall_words.simps)
    then show ?thesis
    proof
      assume w: "w = take k (c # cs)"
      have "length w = k" unfolding w using kl by simp
      with k(1) take_letters [OF k(2)] w show ?thesis by simp
    next
      assume "w \<in> set (findall_words U True (drop k (c # cs)))"
      with "2.IH"(2) [OF Some] show ?thesis by simp
    qed
  qed
qed

lemma unique_loop_subset: "set (unique_loop ks uk seen) \<subseteq> set uk \<union> set ks"
  by (induction ks uk seen rule: unique_loop.induct) auto

lemma lower_at_ascii:
  assumes "i < length s" and "s ! i < 0x80"
  shows "lower_at U s i = [if ascii_upper (s ! i) then s ! i + 0x20 else s ! i]"
  using assms by (simp add: lower_at_def Let_def)

lemma ascii_letter_lt: "ascii_letter c \<Longrightarrow> c < 0x80"
  by (auto simp: ascii_letter_def ascii_upper_def ascii_lower_def)

lemma lower_tail_ascii:
  assumes "\<forall>x \<in> set cs. x < 0x80"
  shows "concat (map (lower_at U (c # cs)) [1..<length (c # cs)])
           = map (\<lambda>x. if ascii_upper x then x + 0x20 else x) cs"
proof -
  have "map (lower_at U (c # cs)) [1..<length (c # cs)]
          = map (\<lambda>i. lower_at U (c # cs) (Suc i)) [0..<length cs]"
    by (simp add: map_Suc_upt [symmetric] del: upt_Suc)
  also have "\<dots> = map (\<lambda>i. [if ascii_upper (cs ! i) then cs ! i + 0x20 else cs ! i]) [0..<length cs]"
    using assms by (intro map_cong) (simp_all add: lower_at_def Let_def)
  also have "concat \<dots> = map (\<lambda>i. if ascii_upper (cs ! i) then cs ! i + 0x20 else cs ! i) [0..<length cs]"
    by (induction "length cs" arbitrary: cs) (simp_all add: concat_map_singleton)
  also have "\<dots> = map (\<lambda>x. if ascii_upper x then x + 0x20 else x) (map (\<lambda>i. cs ! i) [0..<length cs])"
    by simp
  also have "\<dots> = map (\<lambda>x. if ascii_upper x then x + 0x20 else x) cs"
    by (simp only: map_nth)
  finally show ?thesis by simp
qed

lemma py_capitalize_letters:
  assumes "\<forall>c \<in> set w. ascii_letter c"
  shows "py_capitalize U w = ascii_capitalize w"
proof (cases w)
  case Nil
  then show ?thesis by (simp add: py_capitalize_def ascii_capitalize_def)
next
  case (Cons c cs)
  from assms Cons have c: "c < 0x80" and cs: "\<forall>x \<in> set cs. x < 0x80"
    using ascii_letter_lt by auto
  from lower_tail_ascii [OF cs, of U c] c show ?thesis
    unfolding Cons by (simp add: py_capitalize_def ascii_capitalize_def)
qed

lemma ascii_capitalize_letters:
  assumes "w \<noteq> []" and "\<forall>c \<in> set w. ascii_letter c"
  shows "ascii_capitalize w \<noteq> [] \<and> (\<forall>c \<in> set (ascii_capitalize w). ascii_letter c)"
proof (cases w)
  case Nil
  with assms show ?thesis by simp
next
  case (Cons c cs)
  have up: "\<And>x. ascii_lower x \<Longrightarrow> ascii_letter (x - 0x20)"
    by (auto simp: ascii_letter_def ascii_upper_def ascii_lower_def)
  have lo: "\<And>x. ascii_upper x \<Longrightarrow> ascii_letter (x + 0x20)"
    by (auto simp: ascii_letter_def ascii_upper_def ascii_lower_def)
  from assms Cons up lo show ?thesis by (auto simp: ascii_capitalize_def)
qed

lemma py_join_chars:
  "set (py_join sep xs) \<subseteq> set sep \<union> \<Union> (set ` set xs)"
  by (induction sep xs rule: py_join.induct) auto

lemma py_join_nonempty:
  "xs \<noteq> [] \<Longrightarrow> hd xs \<noteq> [] \<Longrightarrow> py_join sep xs \<noteq> []"
  by (induction sep xs rule: py_join.induct) auto

lemma keyword_name_chars:
  assumes "uk \<noteq> []" and "\<forall>w \<in> set uk. 4 \<le> length w \<and> (\<forall>c \<in> set w. ascii_letter c)"
  shows "py_join (lit ''_'') (map (py_capitalize U) (take 3 uk)) \<noteq> []
         \<and> (\<forall>c \<in> set (py_join (lit ''_'') (map (py_capitalize U) (take 3 uk))). name_char c)"
proof -
  let ?ws = "map (py_capitalize U) (take 3 uk)"
  have each: "\<forall>w \<in> set (take 3 uk). py_capitalize U w \<noteq> []
                \<and> (\<forall>c \<in> set (py_capitalize U w). ascii_letter c)"
  proof
    fix w assume "w \<in> set (take 3 uk)"
    then have "w \<in> set uk" by (rule in_set_takeD)
    with assms(2) have w: "w \<noteq> []" "\<forall>c \<in> set w. ascii_letter c" by auto
    from py_capitalize_letters [OF w(2), of U] ascii_capitalize_letters [OF w]
    show "py_capitalize U w \<noteq> [] \<and> (\<forall>c \<in> set (py_capitalize U w). ascii_letter c)"
      by simp
  qed
  have ne: "?ws \<noteq> []" using assms(1) by simp
  have "take 3 uk \<noteq> []" using assms(1) by simp
  then have "hd (take 3 uk) \<in> set (take 3 uk)" by (rule hd_in_set)
  with each have "hd ?ws \<noteq> []" using assms(1) by (simp add: hd_map)
  with ne have a: "py_join (lit ''_'') ?ws \<noteq> []" by (rule py_join_nonempty)
  have "\<forall>c \<in> set (py_join (lit ''_'') ?ws). name_char c"
  proof
    fix c assume "c \<in> set (py_join (lit ''_'') ?ws)"
    with py_join_chars [of "lit ''_''" ?ws]
    have "c \<in> set (lit ''_'') \<or> (\<exists>w \<in> set (take 3 uk). c \<in> set (py_capitalize U w))"
      by auto
    with each show "name_char c" by (auto simp: name_char_def lit_def)
  qed
  with a show ?thesis by blast
qed

lemma simulate_filename_name_chars:
  "simulate_filename U now content_sample \<noteq> []
   \<and> (\<forall>c \<in> set (simulate_filename U now content_sample). name_char c)"
proof -
  let ?content = "strip_ws U content_sample"
  let ?kw = "filter (\<lambda>w. w \<notin> set common_words) (findall_words U False (py_lower U ?content))"
  let ?uk = "unique_loop ?kw [] {}"
  show ?thesis
  proof (cases "?uk = []")
    case False
    have "\<forall>w \<in> set ?uk. 4 \<le> length w \<and> (\<forall>c \<in> set w. ascii_letter c)"
    proof
      fix w assume "w \<in> set ?uk"
      with unique_loop_subset [of ?kw "[]" "{}"] have "w \<in> set ?kw" by auto
      then have "w \<in> set (findall_words U False (py_lower U ?content))" by simp
      then show "4 \<le> length w \<and> (\<forall>c \<in> set w. ascii_letter c)"
        by (rule findall_words_letters)
    qed
    from keyword_name_chars [OF False this, of U] False show ?thesis
      by (simp add: simulate_filename_def Let_def)
  next
    case True
    let ?fn = "filter (\<lambda>c. ascii_letter c \<or> ascii_digit c \<or> c = 0x5F)
                 (py_join (lit ''_'') (map (py_capitalize U) (take 3 (split_ws U [] ?content))))"
    have r: "simulate_filename U now content_sample =
               (if take 3 (split_ws U [] ?content) \<noteq> [] \<and> ?fn \<noteq> [] then ?fn
                else fallback_filename now)"
      using True by (simp add: simulate_filename_def Let_def)
    have "\<forall>c \<in> set ?fn. name_char c" by (auto simp: name_char_def)
    with fallback_name_chars [of now] show ?thesis unfolding r by presburger
  qed
qed

lemma sub_ws_runs_chars:
  "c \<in> set (sub_ws_runs U b s) \<Longrightarrow> c = 0x5F \<or> (c \<in> set s \<and> \<not> is_space U c)"
  by (induction U b s rule: sub_ws_runs.induct) (auto split: if_splits)

lemma clean_response_chars: "\<forall>c \<in> set (clean_response U f). name_char c"
proof
  fix c assume "c \<in> set (clean_response U f)"
  from sub_ws_runs_chars [OF this [unfolded clean_response_def Let_def]]
  show "name_char c" by (auto simp: name_char_def)
qed

lemma bedrock_filename_name_chars:
  assumes "bedrock_filename U now svc content_sample = Inr nm"
  shows "nm \<noteq> [] \<and> (\<forall>c \<in> set nm. name_char c)"
proof (cases "bedrock_client svc")
  case None
  with assms have "nm = simulate_filename U now content_sample"
    by (simp add: bedrock_filename_def)
  with simulate_filename_name_chars show ?thesis by simp
next
  case (Some invoke_model)
  have cr: "\<And>f. \<forall>c \<in> set (clean_response U f). name_char c"
    by (rule clean_response_chars)
  from assms Some cr fallback_name_chars [of now] show ?thesis
    by (auto simp: bedrock_filename_def Let_def
          split: option.splits sum.splits json_value.splits if_splits)
qed

lemma active_generator_name_chars:
  assumes "active_generator U now svc content_sample = Inr nm"
  shows "nm \<noteq> [] \<and> (\<forall>c \<in> set nm. name_char c)"
proof (cases "mode svc = lit ''simulated''")
  case True
  with assms have "nm = simulate_filename U now content_sample"
    by (simp add: active_generator_def)
  with simulate_filename_name_chars [of U now content_sample] show ?thesis by simp
next
  case False
  note not_sim = this
  show ?thesis
  proof (cases "mode svc = lit ''bedrock''")
    case True
    with not_sim assms have "bedrock_filename U now svc content_sample = Inr nm"
      by (simp add: active_generator_def)
    then show ?thesis by (rule bedrock_filename_name_chars)
  next
    case False
    with not_sim assms have "nm = fallback_filename now"
      by (simp add: active_generator_def)
    with fallback_name_chars [of now] show ?thesis by simp
  qed
qed

lemma generate_filename_name_chars:
  assumes "generate_filename U now svc content_sample original_filename = Inr nm"
  shows "nm \<noteq> [] \<and> (\<forall>c \<in> set nm. name_char c)"
proof (cases "content_sample = [] \<or> strip_ws U content_sample = []")
  case True
  with assms have "nm = fallback_filename now" by (simp add: generate_filename_def)
  with fallback_name_chars [of now] show ?thesis by simp
next
  case False
  show ?thesis
  proof (cases "active_generator U now svc content_sample")
    case (Inl e)
    with False assms have "nm = fallback_filename now" by (simp add: generate_filename_def)
    with fallback_name_chars [of now] show ?thesis by simp
  next
    case (Inr f)
    with False assms have "nm = f" by (simp add: generate_filename_def)
    with Inr show ?thesis using active_generator_name_chars by blast
  qed
qed

lemma name_chars_valid:
  assumes "nm \<noteq> []" and "\<forall>c \<in> set nm. name_char c"
  shows "strip_ws U nm \<noteq> [] \<and> (\<forall>c \<in> set nm. c \<notin> forbidden_chars)"
proof -
  from assms(1) have "hd nm \<in> set nm" by simp
  with assms(2) name_char_ok [of "hd nm" U] have "\<exists>c \<in> set nm. \<not> is_space U c" by blast
  then have "strip_ws U nm \<noteq> []" using strip_ws_empty_iff [of U nm] by blast
  moreover have "\<forall>c \<in> set nm. c \<notin> forbidden_chars" using assms(2) name_char_ok by blast
  ultimately show ?thesis by blast
qed

text \<open>
  Claim C8. For every text input, in every mode and whatever the remote service answers,
  the naming service returns a name that is not empty, is not only whitespace (its
  \<open>strip()\<close> is not empty) and holds none of the characters
  \<^verbatim>\<open>/ \ : * ? " < > |\<close>. The same holds for the name of the heuristic generator
  and for the fallback name.
\<close>

theorem generated_name_valid:
  "(\<exists>nm. generate_filename U now svc content_sample original_filename = Inr nm
       \<and> nm \<noteq> [] \<and> strip_ws U nm \<noteq> [] \<and> (\<forall>c \<in> set nm. c \<notin> forbidden_chars))
   \<and> simulate_filename U now content_sample \<noteq> []
   \<and> strip_ws U (simulate_filename U now content_sample) \<noteq> []
   \<and> (\<forall>c \<in> set (simulate_filename U now content_sample). c \<notin> forbidden_chars)
   \<and> fallback_filename now \<noteq> []
   \<and> strip_ws U (fallback_filename now) \<noteq> []
   \<and> (\<forall>c \<in> set (fallback_filename now). c \<notin> forbidden_chars)"
proof -
  obtain nm where nm: "generate_filename U now svc content_sample original_filename = Inr nm"
    using generate_filename_returns by blast
  from generate_filename_name_chars [OF nm] have g: "nm \<noteq> []" "\<forall>c \<in> set nm. name_char c"
    by blast+
  note a = name_chars_valid [OF g, of U]
  from simulate_filename_name_chars [of U now content_sample]
  have s: "simulate_filename U now content_sample \<noteq> []"
    "\<forall>c \<in> set (simulate_filename U now content_sample). name_char c" by blast+
  note b = name_chars_valid [OF s, of U]
  from fallback_name_chars [of now]
  have f: "fallback_filename now \<noteq> []" "\<forall>c \<in> set (fallback_filename now). name_char c"
    by blast+
  note c = name_chars_valid [OF f, of U]
  from nm g(1) a have "\<exists>nm. generate_filename U now svc content_sample original_filename = Inr nm
       \<and> nm \<noteq> [] \<and> strip_ws U nm \<noteq> [] \<and> (\<forall>c \<in> set nm. c \<notin> forbidden_chars)"
    by blast
  with s(1) b f(1) c show ?thesis by blast
qed

theorem generated_name_valid_witness:
  "generate_filename ascii_only
      \<lparr>year = 2024, month = 1, day = 5, hour = 9, minute = 3, second = 7\<rparr>
      \<lparr>mode = lit ''simulated'', bedrock_model = None, max_tokens = 50, bedrock_client = None\<rparr>
      (lit ''Python programming tutorial'') (lit ''a.txt'')
     = Inr (lit ''Python_Programming_Tutorial'')
   \<and> strip_ws ascii_only (lit ''Python_Programming_Tutorial'') \<noteq> []
   \<and> 0x2F \<notin> set (lit ''Python_Programming_Tutorial'')"
proof -
  let ?now = "\<lparr>year = 2024, month = 1, day = 5, hour = 9, minute = 3, second = 7\<rparr>"
  let ?sim = "\<lparr>mode = lit ''simulated'', bedrock_model = None, max_tokens = 50,
                bedrock_client = None\<rparr>"
  have v: "generate_filename ascii_only ?now ?sim (lit ''Python programming tutorial'')
             (lit ''a.txt'') = Inr (lit ''Python_Programming_Tutorial'')"
    by code_simp
  from generated_name_valid
    [of ascii_only ?now ?sim "lit ''Python programming tutorial''" "lit ''a.txt''"]
  obtain nm where nm: "generate_filename ascii_only ?now ?sim
      (lit ''Python programming tutorial'') (lit ''a.txt'') = Inr nm"
    "strip_ws ascii_only nm \<noteq> []" "\<forall>c \<in> set nm. c \<notin> forbidden_chars"
    by blast
  from nm(1) v have e: "nm = lit ''Python_Programming_Tutorial''" by simp
  have "0x2F \<in> forbidden_chars" by (simp add: forbidden_chars_def)
  with nm(3) have "0x2F \<notin> set nm" by blast
  with nm(2) v show ?thesis unfolding e by blast
qed

subsection \<open>The heuristic generator\<close>

lemma uniq_nonempty: "xs \<noteq> [] \<Longrightarrow> uniq xs \<noteq> []"
  by (cases xs) simp_all

lemma removeAll_filter_insert:
  "removeAll w (filter (\<lambda>x. x \<notin> seen) ks) = filter (\<lambda>x. x \<notin> insert w seen) ks"
  by (induction ks) auto

lemma unique_loop_take:
  assumes "length uk < 5"
  shows "unique_loop ks uk seen = take 5 (uk @ uniq (filter (\<lambda>w. w \<notin> seen) ks))"
  using assms
proof (induction ks arbitrary: uk seen)
  case Nil
  then show ?case by simp
next
  case (Cons w ks)
  show ?case
  proof (cases "w \<in> seen")
    case True
    with Cons show ?thesis by simp
  next
    case False
    show ?thesis
    proof (cases "5 \<le> length (uk @ [w])")
      case True
      with Cons.prems have "length uk = 4" by simp
      with False True show ?thesis by simp
    next
      case False
      note short = this
      then have "length (uk @ [w]) < 5" by simp
      from Cons.IH [OF this, of "insert w seen"] short \<open>w \<notin> seen\<close> show ?thesis
        by (simp add: removeAll_filter_insert)
    qed
  qed
qed

lemma unique_loop_uniq: "unique_loop ks [] {} = take 5 (uniq ks)"
  using unique_loop_take [of "[]" ks "{}"] by simp

lemma letter_is_word: "ascii_letter c \<Longrightarrow> is_word U c"
  by (auto simp: is_word_def is_alnum_def ascii_letter_def ascii_upper_def ascii_lower_def)

lemma try_end_none:
  "(\<forall>k. 4 \<le> k \<and> k \<le> n \<longrightarrow> \<not> boundary_at U pw s k) \<Longrightarrow> try_end U pw s n = None"
proof (induction U pw s n rule: try_end.induct)
  case (1 U pw s k)
  show ?case
  proof (cases "k < 4")
    case True
    then show ?thesis by (subst try_end.simps) simp
  next
    case False
    then have nb: "\<not> boundary_at U pw s k" using "1.prems" by simp
    have "\<forall>j. 4 \<le> j \<and> j \<le> k - 1 \<longrightarrow> \<not> boundary_at U pw s j"
      using "1.prems" by auto
    then have "try_end U pw s (k - 1) = None"
      by (rule "1.IH" [OF False nb])
    with False nb show ?thesis by (subst try_end.simps) simp
  qed
qed

lemma try_end_top: "4 \<le> n \<Longrightarrow> boundary_at U pw s n \<Longrightarrow> try_end U pw s n = Some n"
  by (subst try_end.simps) simp

lemma takeWhile_length_mono:
  "(\<And>x. P x \<Longrightarrow> Q x) \<Longrightarrow> length (takeWhile P xs) \<le> length (takeWhile Q xs)"
  by (induction xs) auto

lemma takeWhile_letters_of_word_run:
  assumes "list_all ascii_letter (takeWhile (is_word U) s)"
  shows "takeWhile ascii_letter s = takeWhile (is_word U) s"
proof -
  let ?w = "takeWhile (is_word U) s" and ?r = "dropWhile (is_word U) s"
  have r: "takeWhile ascii_letter ?r = []"
  proof (cases ?r)
    case Nil
    show ?thesis unfolding Nil by simp
  next
    case (Cons x xs)
    then have "?r \<noteq> []" by simp
    then have "\<not> is_word U (hd ?r)" by (rule hd_dropWhile)
    then have "\<not> ascii_letter x" using letter_is_word [of x U] Cons by auto
    then show ?thesis unfolding Cons by simp
  qed
  have "takeWhile ascii_letter s = takeWhile ascii_letter (?w @ ?r)" by simp
  also have "\<dots> = ?w @ takeWhile ascii_letter ?r"
    using assms by (intro takeWhile_append2) (simp add: list_all_iff)
  finally show ?thesis using r by simp
qed

lemma takeWhile_letters_short:
  assumes "\<not> list_all ascii_letter (takeWhile (is_word U) s)"
  shows "length (takeWhile ascii_letter s) < length (takeWhile (is_word U) s)"
proof -
  let ?w = "takeWhile (is_word U) s" and ?r = "dropWhile (is_word U) s"
  from assms obtain x where x: "x \<in> set ?w" "\<not> ascii_letter x" by (auto simp: list_all_iff)
  have "takeWhile ascii_letter s = takeWhile ascii_letter (?w @ ?r)" by simp
  also have "\<dots> = takeWhile ascii_letter ?w" using x by (intro takeWhile_append1) auto
  finally have e: "takeWhile ascii_letter s = takeWhile ascii_letter ?w" .
  have "takeWhile ascii_letter ?w \<noteq> ?w" using x by (auto simp: takeWhile_eq_all_conv)
  then have "length (takeWhile ascii_letter ?w) \<noteq> length ?w"
    by (metis append_eq_conv_conj takeWhile_eq_take take_all_iff order_refl
          takeWhile_dropWhile_id append_self_conv length_append add_cancel_right_right length_0_conv)
  with length_takeWhile_le [of ascii_letter ?w] show ?thesis unfolding e by linarith
qed

lemma match_here_word_run:
  assumes "s \<noteq> []" and "is_word U (hd s)"
  shows "match_here U False s =
           (if list_all ascii_letter (takeWhile (is_word U) s)
               \<and> 4 \<le> length (takeWhile (is_word U) s)
            then Some (length (takeWhile (is_word U) s)) else None)"
proof -
  let ?w = "takeWhile (is_word U) s"
  let ?n = "length (takeWhile ascii_letter s)"
  have "is_word U (s ! 0)" using assms by (simp add: hd_conv_nth)
  then have b0: "boundary_at U False s 0" using assms(1) by (simp add: boundary_at_def)
  then have m: "match_here U False s = try_end U False s ?n" by (simp add: match_here_def)
  have inw: "\<And>i. i < length ?w \<Longrightarrow> is_word U (s ! i) \<and> i < length s"
  proof -
    fix i assume i: "i < length ?w"
    then have "?w ! i = s ! i" by (rule takeWhile_nth)
    moreover have "?w ! i \<in> set ?w" using i by (rule nth_mem)
    then have "is_word U (?w ! i)" by (rule set_takeWhileD [THEN conjunct2])
    moreover have "i < length s" using i length_takeWhile_le [of "is_word U" s] by linarith
    ultimately show "is_word U (s ! i) \<and> i < length s" by simp
  qed
  have after: "length ?w < length s \<Longrightarrow> \<not> is_word U (s ! length ?w)"
    by (rule nth_length_takeWhile)
  show ?thesis
  proof (cases "list_all ascii_letter ?w \<and> 4 \<le> length ?w")
    case True
    then have n: "?n = length ?w" using takeWhile_letters_of_word_run [of U s] by simp
    have four: "4 \<le> length ?w" using True by blast
    have pos: "length ?w - 1 < length ?w" using four by linarith
    have b: "boundary_at U False s (length ?w)"
      using four inw [OF pos] after by (auto simp: boundary_at_def)
    have "try_end U False s (length ?w) = Some (length ?w)"
      by (rule try_end_top [OF four b])
    with True m n show ?thesis by simp
  next
    case False
    have "\<forall>k. 4 \<le> k \<and> k \<le> ?n \<longrightarrow> \<not> boundary_at U False s k"
    proof (intro allI impI)
      fix k assume k: "4 \<le> k \<and> k \<le> ?n"
      have "?n \<le> length ?w" by (rule takeWhile_length_mono) (rule letter_is_word)
      with k have "4 \<le> length ?w" by simp
      with False have "\<not> list_all ascii_letter ?w" by simp
      from takeWhile_letters_short [OF this] k have kw: "k < length ?w" by simp
      then have "k - 1 < length ?w" by simp
      from inw [OF this] inw [OF kw] k show "\<not> boundary_at U False s k"
        by (simp add: boundary_at_def)
    qed
    then have "try_end U False s ?n = None" by (rule try_end_none)
    with False m show ?thesis by simp
  qed
qed

lemma match_here_word_start:
  assumes "is_word U c"
  shows "match_here U False (c # cs) =
           (if list_all ascii_letter (takeWhile (is_word U) (c # cs))
               \<and> 4 \<le> length (takeWhile (is_word U) (c # cs))
            then Some (length (takeWhile (is_word U) (c # cs))) else None)"
  by (rule match_here_word_run) (simp_all add: assms)

lemma findall_nonword_F:
  "\<not> is_word U c \<Longrightarrow> findall_words U False (c # cs) = findall_words U False cs"
  by (simp add: findall_words.simps match_here_def boundary_at_def)

lemma findall_word_T:
  "is_word U c \<Longrightarrow> findall_words U True (c # cs) = findall_words U True cs"
  by (simp add: findall_words.simps match_here_def boundary_at_def)

lemma findall_nonword_T:
  assumes "\<not> is_word U c"
  shows "findall_words U True (c # cs) = findall_words U False cs"
proof -
  from assms have "\<not> ascii_letter c" using letter_is_word by blast
  then have "takeWhile ascii_letter (c # cs) = []" by simp
  then have "match_here U True (c # cs) = None"
    by (simp add: match_here_def try_end.simps)
  with assms show ?thesis by (simp add: findall_words.simps)
qed

lemma findall_word_F:
  assumes "is_word U c"
  shows "findall_words U False (c # cs) =
           (if list_all ascii_letter (takeWhile (is_word U) (c # cs))
               \<and> 4 \<le> length (takeWhile (is_word U) (c # cs))
            then takeWhile (is_word U) (c # cs)
                   # findall_words U True (dropWhile (is_word U) cs)
            else findall_words U True cs)"
proof -
  have t: "take (length (takeWhile (is_word U) (c # cs))) (c # cs) = takeWhile (is_word U) (c # cs)"
    by (rule takeWhile_eq_take [symmetric])
  have d: "drop (length (takeWhile (is_word U) (c # cs))) (c # cs) = dropWhile (is_word U) cs"
    using assms dropWhile_eq_drop [of "is_word U" "c # cs"] by simp
  show ?thesis
    using assms t d
    by (simp add: findall_words.simps match_here_word_start del: takeWhile.simps length_takeWhile_le)
qed

lemma findall_words_runs:
  "findall_words U False s = whole_word_tokens U s
   \<and> findall_words U True s = whole_word_tokens U (dropWhile (is_word U) s)"
proof (induction s rule: length_induct)
  case (1 s)
  show ?case
  proof (cases s)
    case Nil
    then show ?thesis by (simp add: findall_words.simps whole_word_tokens_def)
  next
    case (Cons c cs)
    have ih_cs: "findall_words U False cs = whole_word_tokens U cs"
      "findall_words U True cs = whole_word_tokens U (dropWhile (is_word U) cs)"
      using 1 Cons by simp_all
    let ?r = "dropWhile (is_word U) cs"
    have "length ?r < length s" using length_dropWhile_le [of "is_word U" cs] Cons by simp
    with 1 have "findall_words U True ?r = whole_word_tokens U (dropWhile (is_word U) ?r)"
      by blast
    then have ih_r: "findall_words U True ?r = whole_word_tokens U ?r" by simp
    show ?thesis
    proof (cases "is_word U c")
      case False
      have a: "findall_words U False (c # cs) = whole_word_tokens U (c # cs)"
        using False ih_cs(1) by (simp add: findall_nonword_F whole_word_tokens_def)
      have b: "findall_words U True (c # cs)
                 = whole_word_tokens U (dropWhile (is_word U) (c # cs))"
        using False ih_cs(1) by (simp add: findall_nonword_T whole_word_tokens_def)
      from a b show ?thesis unfolding Cons by blast
    next
      case True
      have runs: "word_runs U (c # cs) = takeWhile (is_word U) (c # cs) # word_runs U ?r"
        using True by simp
      have a: "findall_words U False (c # cs) = whole_word_tokens U (c # cs)"
        unfolding findall_word_F [OF True] whole_word_tokens_def runs
        using ih_cs(2) ih_r by (simp add: whole_word_tokens_def del: takeWhile.simps)
      have b: "findall_words U True (c # cs)
                 = whole_word_tokens U (dropWhile (is_word U) (c # cs))"
        using True ih_cs(2) by (simp add: findall_word_T)
      from a b show ?thesis unfolding Cons by blast
    qed
  qed
qed

lemma whole_word_tokens_letters:
  "w \<in> set (whole_word_tokens U s) \<Longrightarrow> \<forall>c \<in> set w. ascii_letter c"
  by (simp add: whole_word_tokens_def list_all_iff)

lemma simulate_filename_keywords:
  assumes "filter (\<lambda>w. w \<notin> set common_words)
             (whole_word_tokens U (py_lower U (strip_ws U content_sample))) \<noteq> []"
  shows "simulate_filename U now content_sample
           = name_of_tokens U (whole_word_tokens U (py_lower U (strip_ws U content_sample)))"
proof -
  let ?kw = "filter (\<lambda>w. w \<notin> set common_words)
               (whole_word_tokens U (py_lower U (strip_ws U content_sample)))"
  have f: "findall_words U False (py_lower U (strip_ws U content_sample))
             = whole_word_tokens U (py_lower U (strip_ws U content_sample))"
    using findall_words_runs by blast
  have "uniq ?kw \<noteq> []" using assms by (rule uniq_nonempty)
  then have ne: "take 5 (uniq ?kw) \<noteq> []" by simp
  show ?thesis
    using ne by (simp add: simulate_filename_def Let_def f unique_loop_uniq name_of_tokens_def)
qed

text \<open>
  Claim C9, as amended. The regular expression of the heuristic generator finds the whole
  words of four or more ASCII letters: the maximal runs of word characters (letters,
  digits, underscore) of the lower-cased content that consist of ASCII letters only. For
  every content sample in which at least one such word is not a stop word, the generator
  returns the name built from these tokens: stop words dropped, duplicates removed in
  first-seen order, up to five kept, and the first three joined with underscores, each with
  its first letter in upper case and the others in lower case.
\<close>

theorem simulate_filename_whole_words:
  assumes "filter (\<lambda>w. w \<notin> set common_words)
             (whole_word_tokens U (py_lower U (strip_ws U content_sample))) \<noteq> []"
  shows "findall_words U False (py_lower U (strip_ws U content_sample))
           = whole_word_tokens U (py_lower U (strip_ws U content_sample))
       \<and> simulate_filename U now content_sample
           = name_of_tokens U (whole_word_tokens U (py_lower U (strip_ws U content_sample)))
       \<and> (\<forall>w \<in> set (whole_word_tokens U (py_lower U (strip_ws U content_sample))).
             py_capitalize U w = ascii_capitalize w)"
proof -
  have a: "findall_words U False (py_lower U (strip_ws U content_sample))
           = whole_word_tokens U (py_lower U (strip_ws U content_sample))"
    using findall_words_runs by blast
  have c: "\<forall>w \<in> set (whole_word_tokens U (py_lower U (strip_ws U content_sample))).
             py_capitalize U w = ascii_capitalize w"
    using whole_word_tokens_letters py_capitalize_letters by blast
  from a simulate_filename_keywords [OF assms] c show ?thesis by blast
qed

text \<open>
  Claim C9 as stated fails where a run of letters touches a digit or an underscore: in
  \<open>"hello_world test"\<close> the runs of four or more letters are \<open>hello\<close>, \<open>world\<close> and
  \<open>test\<close>, which would give \<open>Hello_World_Test\<close>, but the word boundaries of the regular
  expression leave only \<open>test\<close>, and the generator returns \<open>Test\<close>.
\<close>

theorem simulate_filename_tokens_counterexample:
  "findall_words ascii_only False
       (py_lower ascii_only (strip_ws ascii_only (lit ''hello_world test''))) = [lit ''test'']
   \<and> simulate_filename ascii_only
       \<lparr>year = 2024, month = 1, day = 5, hour = 9, minute = 3, second = 7\<rparr>
       (lit ''hello_world test'') = lit ''Test''
   \<and> spec_tokens (py_lower ascii_only (strip_ws ascii_only (lit ''hello_world test'')))
       = [lit ''hello'', lit ''world'', lit ''test'']
   \<and> name_of_tokens ascii_only
       (spec_tokens (py_lower ascii_only (strip_ws ascii_only (lit ''hello_world test''))))
       = lit ''Hello_World_Test''
   \<and> simulate_filename ascii_only
       \<lparr>year = 2024, month = 1, day = 5, hour = 9, minute = 3, second = 7\<rparr>
       (lit ''hello_world test'')
     \<noteq> name_of_tokens ascii_only
       (spec_tokens (py_lower ascii_only (strip_ws ascii_only (lit ''hello_world test''))))"
  by code_simp

theorem simulate_filename_whole_words_witness:
  "simulate_filename ascii_only
       \<lparr>year = 2024, month = 1, day = 5, hour = 9, minute = 3, second = 7\<rparr>
       (lit ''Annual report: the annual budget, report_v2 and sales'')
     = lit ''Annual_Report_Budget''"
proof -
  let ?c = "lit ''Annual report: the annual budget, report_v2 and sales''"
  have h: "filter (\<lambda>w. w \<notin> set common_words)
             (whole_word_tokens ascii_only (py_lower ascii_only (strip_ws ascii_only ?c))) \<noteq> []"
    by code_simp
  have v: "name_of_tokens ascii_only
             (whole_word_tokens ascii_only (py_lower ascii_only (strip_ws ascii_only ?c)))
           = lit ''Annual_Report_Budget''"
    by code_simp
  from simulate_filename_whole_words [OF h] v show ?thesis by simp
qed

subsection \<open>The pipeline\<close>











subsection \<open>Sanitization\<close>

lemma valid_char_iff:
  "\<not> invalid_chars c \<longleftrightarrow> c \<notin> {0x2F, 0x5C, 0x3A, 0x2A, 0x3F, 0x22, 0x3C, 0x3E, 0x7C} \<and> 0x1F < c \<and> (c < 0x7F \<or> 0x9F < c)"
  by (auto simp: invalid_chars_def)

lemma sanitize_filename_shape:
  "(\<exists>pre core suf.
       filter (\<lambda>c. \<not> invalid_chars c) s = pre @ core @ suf
     \<and> set pre \<subseteq> {0x20, 0x2E} \<and> set suf \<subseteq> {0x20, 0x2E}
     \<and> (core \<noteq> [] \<longrightarrow> hd core \<notin> {0x20, 0x2E} \<and> last core \<notin> {0x20, 0x2E})
     \<and> sanitize_filename s = (if core = [] then lit ''unnamed'' else core))
   \<and> (\<forall>c \<in> set (sanitize_filename s). \<not> invalid_chars c)
   \<and> sanitize_filename s \<noteq> []"
proof -
  let ?f = "filter (\<lambda>c. \<not> invalid_chars c) s"
  let ?core = "strip_chars (lit ''. '') ?f"
  have chars: "set (lit ''. '') = {0x20, 0x2E}" by (auto simp: lit_def)
  obtain pre suf where d: "?f = pre @ ?core @ suf"
    and p: "set pre \<subseteq> set (lit ''. '')" and q: "set suf \<subseteq> set (lit ''. '')"
    using strip_chars_decomp [of ?f "lit ''. ''"] by blast
  have ends: "?core \<noteq> [] \<longrightarrow> hd ?core \<notin> {0x20, 0x2E} \<and> last ?core \<notin> {0x20, 0x2E}"
    using strip_chars_hd [of "lit ''. ''" ?f] strip_chars_last [of "lit ''. ''" ?f]
    unfolding chars by blast
  have res: "sanitize_filename s = (if ?core = [] then lit ''unnamed'' else ?core)"
    by (simp add: sanitize_filename_def Let_def)
  have first: "\<exists>pre core suf.
       ?f = pre @ core @ suf
     \<and> set pre \<subseteq> {0x20, 0x2E} \<and> set suf \<subseteq> {0x20, 0x2E}
     \<and> (core \<noteq> [] \<longrightarrow> hd core \<notin> {0x20, 0x2E} \<and> last core \<notin> {0x20, 0x2E})
     \<and> sanitize_filename s = (if core = [] then lit ''unnamed'' else core)"
    using d p q ends res unfolding chars by blast
  have unnamed_ok: "\<forall>c \<in> set (lit ''unnamed''). \<not> invalid_chars c"
    by (simp add: lit_def invalid_chars_def)
  have core_ok: "\<forall>c \<in> set ?core. \<not> invalid_chars c"
    using strip_chars_subset [of "lit ''. ''" ?f] by auto
  have second: "\<forall>c \<in> set (sanitize_filename s). \<not> invalid_chars c"
    using unnamed_ok core_ok unfolding res by presburger
  have third: "sanitize_filename s \<noteq> []"
    unfolding res by (simp add: lit_def)
  from first second third show ?thesis by blast
qed

text \<open>
  Claim C6. For every input string, \<open>_sanitize_filename\<close> deletes every occurrence of the
  nine characters slash (0x2F), backslash (0x5C), colon (0x3A), star (0x2A), question mark
  (0x3F), double quote (0x22), less-than (0x3C), greater-than (0x3E) and bar (0x7C) and of
  every control character in 0x00-0x1F and 0x7F-0x9F, and deletes nothing else; it then
  strips the leading and trailing spaces (0x20) and dots (0x2E), and returns \<open>"unnamed"\<close>
  when nothing is left. That is: the input restricted to the characters that are none of
  the nine, above 0x1F and outside 0x7F-0x9F is \<open>pre @ core @ suf\<close>, where \<open>pre\<close> and
  \<open>suf\<close> hold only spaces and dots and \<open>core\<close> neither starts nor ends with one, and the
  result is \<open>core\<close>, or \<open>"unnamed"\<close> if \<open>core\<close> is empty. The result is never empty and holds
  none of the deleted characters. Sanitizing three spaces or three slashes gives
  \<open>"unnamed"\<close>.
\<close>

theorem sanitize_filename_spec:
  "(\<exists>pre core suf.
       filter (\<lambda>c. c \<notin> {0x2F, 0x5C, 0x3A, 0x2A, 0x3F, 0x22, 0x3C, 0x3E, 0x7C} \<and> 0x1F < c \<and> (c < 0x7F \<or> 0x9F < c)) s
         = pre @ core @ suf
     \<and> set pre \<subseteq> {0x20, 0x2E} \<and> set suf \<subseteq> {0x20, 0x2E}
     \<and> (core \<noteq> [] \<longrightarrow> hd core \<notin> {0x20, 0x2E} \<and> last core \<notin> {0x20, 0x2E})
     \<and> sanitize_filename s = (if core = [] then lit ''unnamed'' else core))
   \<and> (\<forall>c \<in> set (sanitize_filename s).
         c \<notin> {0x2F, 0x5C, 0x3A, 0x2A, 0x3F, 0x22, 0x3C, 0x3E, 0x7C} \<and> 0x1F < c \<and> (c < 0x7F \<or> 0x9F < c))
   \<and> sanitize_filename s \<noteq> []
   \<and> sanitize_filename (lit ''   '') = lit ''unnamed''
   \<and> sanitize_filename (lit ''///'') = lit ''unnamed''"
proof -
  have e1: "sanitize_filename (lit ''   '') = lit ''unnamed''"
    by (simp add: sanitize_filename_def strip_chars_def lit_def invalid_chars_def)
  have e2: "sanitize_filename (lit ''///'') = lit ''unnamed''"
    by (simp add: sanitize_filename_def strip_chars_def lit_def invalid_chars_def)
  show ?thesis
    using sanitize_filename_shape [of s, unfolded valid_char_iff] e1 e2
    by (intro conjI) blast+
qed

theorem sanitize_filename_spec_witness:
  "sanitize_filename
       [0x20, 0x2E, 0x2F, 0x61, 0x5C, 0x3A, 0x2A, 0x20, 0x3F, 0x22, 0x3C, 0x21, 0x3E, 0x7C, 0x00,
        0x7E, 0x1F, 0x7F, 0xA0, 0x80, 0x9F, 0x2E, 0x62, 0x2F, 0x2E, 0x20]
     = [0x61, 0x20, 0x21, 0x7E, 0xA0, 0x2E, 0x62]
   \<and> hd (sanitize_filename
       [0x20, 0x2E, 0x2F, 0x61, 0x5C, 0x3A, 0x2A, 0x20, 0x3F, 0x22, 0x3C, 0x21, 0x3E, 0x7C, 0x00,
        0x7E, 0x1F, 0x7F, 0xA0, 0x80, 0x9F, 0x2E, 0x62, 0x2F, 0x2E, 0x20])
       \<notin> {0x2F, 0x5C, 0x3A, 0x2A, 0x3F, 0x22, 0x3C, 0x3E, 0x7C}"
proof -
  let ?s = "[0x20, 0x2E, 0x2F, 0x61, 0x5C, 0x3A, 0x2A, 0x20, 0x3F, 0x22, 0x3C, 0x21, 0x3E, 0x7C, 0x00,
        0x7E, 0x1F, 0x7F, 0xA0, 0x80, 0x9F, 0x2E, 0x62, 0x2F, 0x2E, 0x20]"
  have v: "sanitize_filename ?s = [0x61, 0x20, 0x21, 0x7E, 0xA0, 0x2E, 0x62]"
    by (simp add: sanitize_filename_def strip_chars_def lit_def invalid_chars_def)
  have n: "sanitize_filename ?s \<noteq> []"
    and b: "\<forall>c \<in> set (sanitize_filename ?s).
         c \<notin> {0x2F, 0x5C, 0x3A, 0x2A, 0x3F, 0x22, 0x3C, 0x3E, 0x7C} \<and> 0x1F < c \<and> (c < 0x7F \<or> 0x9F < c)"
    using sanitize_filename_spec [of ?s] by blast+
  from n b have "hd (sanitize_filename ?s) \<notin> {0x2F, 0x5C, 0x3A, 0x2A, 0x3F, 0x22, 0x3C, 0x3E, 0x7C}"
    using hd_in_set by blast
  with v show ?thesis by blast
qed

end
